theory Spec2Isabelle
  imports Main "HOL-Library.Word"
begin

section \<open>Terms and literals (Kernel/Term.hpp)\<close>

text \<open>
  A \<open>TermList\<close> is either an ordinary variable (an unsigned index) or a reference to a
  compound term with a function symbol and its arguments. Shared terms are hash-consed,
  so pointer identity of terms and literals is structural equality of these values.
\<close>

datatype TermList = Var nat | Fn "32 word" "TermList list"

text \<open>
  A literal is a term whose \<open>_functor\<close> (an \<open>unsigned\<close>, 32 bits) is the predicate
  number; the polarity is a one-bit field. The arity is the length of the argument array.
  Functor 0 is equality.
\<close>

record Literal =
  functor' :: "32 word"
  polarity :: bool
  args :: "TermList list"

definition arity :: "Literal \<Rightarrow> nat" where
  "arity l = length (args l)"

definition isPositive :: "Literal \<Rightarrow> bool" where
  "isPositive l = polarity l"

definition isNegative :: "Literal \<Rightarrow> bool" where
  "isNegative l = (\<not> polarity l)"

definition isEquality :: "Literal \<Rightarrow> bool" where
  "isEquality l = (functor' l = 0)"

text \<open>\<open>polarity()\<close> as the integer the C++ returns: 1 if positive and 0 if negative.\<close>

definition polarityBit :: "Literal \<Rightarrow> 32 word" where
  "polarityBit l = (if polarity l then 1 else 0)"

text \<open>\<open>unsigned header() const { return 2*_functor + polarity(); }\<close>, in unsigned arithmetic.\<close>

definition header :: "Literal \<Rightarrow> 32 word" where
  "header l = 2 * functor' l + polarityBit l"

text \<open>\<open>unsigned complementaryHeader() const { return 2*_functor + 1 - polarity(); }\<close>\<close>

definition complementaryHeader :: "Literal \<Rightarrow> 32 word" where
  "complementaryHeader l = 2 * functor' l + 1 - polarityBit l"

definition headerToPredicateNumber :: "32 word \<Rightarrow> 32 word" where
  "headerToPredicateNumber h = h div 2"

definition headerToPolarity :: "32 word \<Rightarrow> 32 word" where
  "headerToPolarity h = h mod 2"

section \<open>Statistics (Shell/Statistics.hpp)\<close>

text \<open>
  \<open>TerminationReason\<close> and \<open>ExecutionPhase\<close> are unscoped enumerations without a fixed
  underlying type: a field of such a type is stored as an integer (here 32 bits,
  unsigned), and the enumerators, which carry no initialisers, are the constants 0, 1,
  2, ... in the order of the declaration. The values of such an enumeration are those
  of the smallest bit-field that holds all its enumerators, 0 to 7 for the six
  termination reasons, so the field can hold integers that are none of the enumerators.
\<close>

type_synonym TerminationReason = "32 word"







type_synonym ExecutionPhase = "32 word"


definition PARSING :: ExecutionPhase where
  "PARSING = 1"

definition PROPERTY_SCANNING :: ExecutionPhase where
  "PROPERTY_SCANNING = 2"

definition NORMALIZATION :: ExecutionPhase where
  "NORMALIZATION = 3"

definition SINE_SELECTION :: ExecutionPhase where
  "SINE_SELECTION = 4"

definition INCLUDING_THEORY_AXIOMS :: ExecutionPhase where
  "INCLUDING_THEORY_AXIOMS = 5"

definition PREPROCESS_1 :: ExecutionPhase where
  "PREPROCESS_1 = 6"

definition UNUSED_PREDICATE_DEFINITION_REMOVAL :: ExecutionPhase where
  "UNUSED_PREDICATE_DEFINITION_REMOVAL = 7"

definition PREPROCESS_2 :: ExecutionPhase where
  "PREPROCESS_2 = 8"

definition NAMING :: ExecutionPhase where
  "NAMING = 9"

definition PREPROCESS_3 :: ExecutionPhase where
  "PREPROCESS_3 = 10"

definition CLAUSIFICATION :: ExecutionPhase where
  "CLAUSIFICATION = 11"

definition FUNCTION_DEFINITION_ELIMINATION :: ExecutionPhase where
  "FUNCTION_DEFINITION_ELIMINATION = 12"

definition INEQUALITY_SPLITTING :: ExecutionPhase where
  "INEQUALITY_SPLITTING = 13"

definition EQUALITY_RESOLUTION_WITH_DELETION :: ExecutionPhase where
  "EQUALITY_RESOLUTION_WITH_DELETION = 14"

definition EQUALITY_PROXY :: ExecutionPhase where
  "EQUALITY_PROXY = 15"

definition GENERAL_SPLITTING :: ExecutionPhase where
  "GENERAL_SPLITTING = 16"

definition SATURATION :: ExecutionPhase where
  "SATURATION = 17"

definition FINALIZATION :: ExecutionPhase where
  "FINALIZATION = 18"

definition UNKNOWN_PHASE :: ExecutionPhase where
  "UNKNOWN_PHASE = 19"

text \<open>A \<open>Kernel::Unit*\<close>: the address of a unit, or the null pointer (\<open>None\<close>).\<close>

type_synonym UnitPtr = nat

record Statistics =
  inputClauses :: "32 word"
  inputFormulas :: "32 word"
  formulaNames :: "32 word"
  initialClauses :: "32 word"
  splittedInequalities :: "32 word"
  purePredicates :: "32 word"
  unusedPredicateDefinitions :: "32 word"
  functionDefinitions :: "32 word"
  selectedBySine :: "32 word"
  sineIterations :: "32 word"
  factoring :: "32 word"
  resolution :: "32 word"
  urResolution :: "32 word"
  forwardSuperposition :: "32 word"
  backwardSuperposition :: "32 word"
  selfSuperposition :: "32 word"
  equalityFactoring :: "32 word"
  equalityResolution :: "32 word"
  duplicateLiterals :: "32 word"
  trivialInequalities :: "32 word"
  forwardSubsumptionResolution :: "32 word"
  backwardSubsumptionResolution :: "32 word"
  forwardDemodulations :: "32 word"
  forwardDemodulationsToEqTaut :: "32 word"
  backwardDemodulations :: "32 word"
  backwardDemodulationsToEqTaut :: "32 word"
  forwardLiteralRewrites :: "32 word"
  condensations :: "32 word"
  globalSubsumption :: "32 word"
  evaluations :: "32 word"
  interpretedSimplifications :: "32 word"
  simpleTautologies :: "32 word"
  equationalTautologies :: "32 word"
  forwardSubsumed :: "32 word"
  backwardSubsumed :: "32 word"
  subsumedEmptyClauses :: "32 word"
  emptyClauseSubsumptions :: "32 word"
  subsumedByMarking :: "32 word"
  generatedClauses :: "32 word"
  passiveClauses :: "32 word"
  activeClauses :: "32 word"
  discardedNonRedundantClauses :: "32 word"
  inferencesSkippedDueToColors :: "32 word"
  finalPassiveClauses :: "32 word"
  finalActiveClauses :: "32 word"
  reactivatedClauses :: "32 word"
  splitClauses :: "32 word"
  splitComponents :: "32 word"
  uniqueComponents :: "32 word"
  splittingNamesIntroduced :: "32 word"
  bddPropClauses :: "32 word"
  satClauses :: "32 word"
  unitSatClauses :: "32 word"
  binarySatClauses :: "32 word"
  learntSatClauses :: "32 word"
  learntSatLiterals :: "32 word"
  bddMemoryUsage :: "64 word"
  backtrackingSplits :: "32 word"
  backtrackingSplitsRefuted :: "32 word"
  backtrackingSplitsRefutedZeroLevel :: "32 word"
  instGenGeneratedClauses :: "32 word"
  instGenRedundantClauses :: "32 word"
  instGenKeptClauses :: "32 word"
  instGenIterations :: "32 word"
  satPureVarsEliminated :: "32 word"
  terminationReason :: TerminationReason
  refutation :: "UnitPtr option"
  phase :: ExecutionPhase




section \<open>SAT clause sharing (SAT/ClauseSharing.cpp)\<close>

text \<open>
  \<open>SATClause\<close> and \<open>SATLiteral\<close> are not among the sources; the hasher uses only
  \<open>length()\<close> and \<open>operator[]\<close> of a clause and the comparison of literals. A SAT
  literal is one machine word; a SAT clause is its array of literals together with its
  length.
\<close>

type_synonym SATLiteral = "32 word"
type_synonym SATClause = "SATLiteral list"

datatype access_error = OutOfRange int nat

text \<open>
  Reading position \<open>i\<close> of a clause. The C++ \<open>operator[]\<close> does not check the index;
  here a read outside \<open>0 .. length - 1\<close> is the error branch, carrying the index and the
  length of the clause.
\<close>

definition lit_at :: "SATClause \<Rightarrow> int \<Rightarrow> access_error + SATLiteral" where
  "lit_at c i =
     (if 0 \<le> i \<and> i < int (length c) then Inr (c ! nat i)
      else Inl (OutOfRange i (length c)))"

text \<open>
  The loop \<open>for(int i=c1->length();i>=0;i--)\<close> of \<open>Hasher::equals\<close>, over a reader
  \<open>rd\<close> for \<open>operator[]\<close>.
\<close>

function equals_loop ::
  "(SATClause \<Rightarrow> int \<Rightarrow> access_error + SATLiteral) \<Rightarrow> SATClause \<Rightarrow> SATClause \<Rightarrow> int
     \<Rightarrow> access_error + bool" where
  "equals_loop rd c1 c2 i =
     (if i \<ge> 0 then
        (case rd c1 i of
           Inl e \<Rightarrow> Inl e
         | Inr a \<Rightarrow>
             (case rd c2 i of
                Inl e \<Rightarrow> Inl e
              | Inr b \<Rightarrow> if a \<noteq> b then Inr False else equals_loop rd c1 c2 (i - 1)))
      else Inr True)"
  by pat_completeness auto
termination
  by (relation "measure (\<lambda>(rd, c1, c2, i). nat (i + 1))") auto

declare equals_loop.simps [simp del]

definition equals_with ::
  "(SATClause \<Rightarrow> int \<Rightarrow> access_error + SATLiteral) \<Rightarrow> SATClause \<Rightarrow> SATClause
     \<Rightarrow> access_error + bool" where
  "equals_with rd c1 c2 =
     (if length c1 \<noteq> length c2 then Inr False
      else equals_loop rd c1 c2 (int (length c1)))"

definition equals :: "SATClause \<Rightarrow> SATClause \<Rightarrow> access_error + bool" where
  "equals c1 c2 = equals_with lit_at c1 c2"


section \<open>Clauses, inferences and the BDD of propositional parts\<close>

text \<open>
  Modelled from the spec: the classes \<open>Unit\<close>, \<open>Clause\<close>, \<open>Inference\<close>, \<open>InferenceStore\<close>
  and \<open>BDD\<close> (Kernel/*.hpp) are used by the splitter and the answer-literal manager but
  are not among the sources. The input types are the ones the data model lists; of the
  inference rules only those the code below names are kept, and RESOLUTION for the
  inferences of the saturation loop.
\<close>

datatype InputType = AXIOM | HYPOTHESIS | ASSUMPTION | CONJECTURE | NEGATED_CONJECTURE_TYPE

datatype Rule =
    INPUT
  | NEGATED_CONJECTURE
  | CLAUSIFY
  | RESOLUTION
  | TAUTOLOGY_INTRODUCTION
  | CLAUSE_NAMING
  | SPLITTING
  | ANSWER_LITERAL
  | UNIT_RESULTING_RESOLUTION

text \<open>
  An \<open>Inference\<close> holds its rule and its premises: none for \<open>Inference\<close>, one for
  \<open>Inference1\<close>, two for \<open>Inference2\<close>, a list for \<open>InferenceMany\<close>.
\<close>

record Inference =
  rule :: Rule
  parents :: "UnitPtr list"

definition Inference0 :: "Rule \<Rightarrow> Inference" where
  "Inference0 r = \<lparr>rule = r, parents = []\<rparr>"

definition Inference1 :: "Rule \<Rightarrow> UnitPtr \<Rightarrow> Inference" where
  "Inference1 r p = \<lparr>rule = r, parents = [p]\<rparr>"

definition Inference2 :: "Rule \<Rightarrow> UnitPtr \<Rightarrow> UnitPtr \<Rightarrow> Inference" where
  "Inference2 r p1 p2 = \<lparr>rule = r, parents = [p1, p2]\<rparr>"

definition InferenceMany :: "Rule \<Rightarrow> UnitPtr list \<Rightarrow> Inference" where
  "InferenceMany r ps = \<lparr>rule = r, parents = ps\<rparr>"

text \<open>
  Modelled from the spec: a BDD node is a constant or a triple of a variable and two
  subdiagrams (here: the variable, the branch where it is true, the branch where it is
  false). Diagrams are reduced and ordered by variable, hence canonical: two nodes are
  the same node exactly when they are equal as values.
\<close>

datatype BDDNode = BDDConst bool | BDDInner int BDDNode BDDNode

definition getTrue :: BDDNode where
  "getTrue = BDDConst True"

definition getFalse :: BDDNode where
  "getFalse = BDDConst False"

definition isTrue :: "BDDNode \<Rightarrow> bool" where
  "isTrue n = (n = BDDConst True)"

definition isFalse :: "BDDNode \<Rightarrow> bool" where
  "isFalse n = (n = BDDConst False)"

definition getNode :: "int \<Rightarrow> BDDNode \<Rightarrow> BDDNode \<Rightarrow> BDDNode" where
  "getNode v p n = (if p = n then p else BDDInner v p n)"

definition getAtomic :: "int \<Rightarrow> bool \<Rightarrow> BDDNode" where
  "getAtomic v positive =
     (if positive then getNode v getTrue getFalse else getNode v getFalse getTrue)"

fun bddApply :: "(bool \<Rightarrow> bool \<Rightarrow> bool) \<Rightarrow> BDDNode \<Rightarrow> BDDNode \<Rightarrow> BDDNode" where
  "bddApply f (BDDConst a) (BDDConst b) = BDDConst (f a b)"
| "bddApply f (BDDInner v p n) (BDDConst b) =
     getNode v (bddApply f p (BDDConst b)) (bddApply f n (BDDConst b))"
| "bddApply f (BDDConst a) (BDDInner w q m) =
     getNode w (bddApply f (BDDConst a) q) (bddApply f (BDDConst a) m)"
| "bddApply f (BDDInner v p n) (BDDInner w q m) =
     (if v = w then getNode v (bddApply f p q) (bddApply f n m)
      else if v < w then
        getNode v (bddApply f p (BDDInner w q m)) (bddApply f n (BDDInner w q m))
      else getNode w (bddApply f (BDDInner v p n) q) (bddApply f (BDDInner v p n) m))"

definition conjunction :: "BDDNode \<Rightarrow> BDDNode \<Rightarrow> BDDNode" where
  "conjunction a b = bddApply (\<lambda>x y. x \<and> y) a b"

definition disjunction :: "BDDNode \<Rightarrow> BDDNode \<Rightarrow> BDDNode" where
  "disjunction a b = bddApply (\<lambda>x y. x \<or> y) a b"

text \<open>
  A clause: its literals, its input type, its inference, its propositional part and the
  split levels it depends on. A clause whose propositional part was never set has the
  part \<open>getFalse\<close> (unconditional) and no splits.
\<close>

record Clause =
  literals :: "Literal list"
  inputType :: InputType
  inference :: Inference
  prop' :: BDDNode
  splits :: "nat list"

definition newClause :: "Literal list \<Rightarrow> InputType \<Rightarrow> Inference \<Rightarrow> Clause" where
  "newClause ls ty infr =
     \<lparr>literals = ls, inputType = ty, inference = infr, prop' = getFalse, splits = []\<rparr>"

text \<open>A \<open>Clause*\<close> is an index into the store of allocated clauses; \<open>new\<close> appends.\<close>

type_synonym ClausePtr = nat
type_synonym Store = "Clause list"

definition noProp :: "Clause \<Rightarrow> bool" where
  "noProp c = isFalse (prop' c)"

definition noSplits :: "Clause \<Rightarrow> bool" where
  "noSplits c = (splits c = [])"

text \<open>The side tables of the inference store, as the log of what was recorded.\<close>

datatype StoreRecord =
    NonPropInference ClausePtr
  | PropAlter ClausePtr BDDNode BDDNode Rule
  | SplittingRecord ClausePtr BDDNode BDDNode "ClausePtr list"
  | MergeRecord ClausePtr BDDNode ClausePtr BDDNode

section \<open>The splitter (Saturation/Splitter.cpp)\<close>

text \<open>
  The state the splitter works on: the clause store, the singletons it calls (the BDD's
  variable counter, the inference store, the three statistics counters it increments)
  and its own members. A \<open>DHMap\<close> is an association list read with \<open>map_of\<close>; the
  variant index is the list of the clauses inserted into it.
\<close>

record Splitter =
  clauses :: Store
  bddNewVar :: int
  inferenceStore :: "StoreRecord list"
  splittedClauses :: "32 word"
  splittedComponents :: "32 word"
  uniqueComponents :: "32 word"
  variantIndex :: "ClausePtr list"
  clauseNames :: "(ClausePtr \<times> int) list"
  propPredNames :: "(32 word \<times> int) list"
  propPredPosNamePremises :: "(32 word \<times> ClausePtr) list"
  propPredNegNamePremises :: "(32 word \<times> ClausePtr) list"

text \<open>Modelled from the spec: \<open>BDD::getNewVar\<close>, variables are allocated monotonically.\<close>

definition getNewVar :: "Splitter \<Rightarrow> int \<times> Splitter" where
  "getNewVar st = (bddNewVar st, st\<lparr>bddNewVar := bddNewVar st + 1\<rparr>)"

definition allocClause :: "Clause \<Rightarrow> Splitter \<Rightarrow> ClausePtr \<times> Splitter" where
  "allocClause c st = (length (clauses st), st\<lparr>clauses := clauses st @ [c]\<rparr>)"

definition setProp :: "ClausePtr \<Rightarrow> BDDNode \<Rightarrow> Splitter \<Rightarrow> Splitter" where
  "setProp p b st = st\<lparr>clauses := (clauses st)[p := (clauses st ! p)\<lparr>prop' := b\<rparr>]\<rparr>"

definition record' :: "StoreRecord \<Rightarrow> Splitter \<Rightarrow> Splitter" where
  "record' r st = st\<lparr>inferenceStore := inferenceStore st @ [r]\<rparr>"

subsection \<open>Variants\<close>

text \<open>
  Modelled from the spec: the variant index (\<open>ClauseVariantIndex\<close>) is not among the
  sources. Two clauses are variants iff they are equal up to a renaming of variables:
  the literals of one can be paired with the literals of the other under one injective
  renaming.
\<close>

type_synonym renaming = "(nat \<times> nat) list"

definition renameVar :: "nat \<Rightarrow> nat \<Rightarrow> renaming \<Rightarrow> renaming option" where
  "renameVar x y r =
     (case map_of r x of
        Some y' \<Rightarrow> if y' = y then Some r else None
      | None \<Rightarrow> if y \<in> snd ` set r then None else Some ((x, y) # r))"

fun matchTerm :: "TermList \<Rightarrow> TermList \<Rightarrow> renaming \<Rightarrow> renaming option"
  and matchTerms :: "TermList list \<Rightarrow> TermList list \<Rightarrow> renaming \<Rightarrow> renaming option" where
  "matchTerm (Var x) (Var y) r = renameVar x y r"
| "matchTerm (Fn f ts) (Fn g us) r = (if f = g then matchTerms ts us r else None)"
| "matchTerm (Var x) (Fn g us) r = None"
| "matchTerm (Fn f ts) (Var y) r = None"
| "matchTerms [] [] r = Some r"
| "matchTerms (t # ts) (u # us) r =
     (case matchTerm t u r of None \<Rightarrow> None | Some r' \<Rightarrow> matchTerms ts us r')"
| "matchTerms [] (u # us) r = None"
| "matchTerms (t # ts) [] r = None"

definition matchLiteral :: "Literal \<Rightarrow> Literal \<Rightarrow> renaming \<Rightarrow> renaming option" where
  "matchLiteral l1 l2 r =
     (if functor' l1 = functor' l2 \<and> polarity l1 = polarity l2
      then matchTerms (args l1) (args l2) r else None)"

fun variantSearch :: "Literal list \<Rightarrow> Literal list \<Rightarrow> renaming \<Rightarrow> bool" where
  "variantSearch [] ys r = (ys = [])"
| "variantSearch (x # xs) ys r =
     (\<exists>y\<in>set ys. case matchLiteral x y r of
                      None \<Rightarrow> False
                    | Some r' \<Rightarrow> variantSearch xs (remove1 y ys) r')"

definition isVariant :: "Literal list \<Rightarrow> Literal list \<Rightarrow> bool" where
  "isVariant ls1 ls2 = variantSearch ls1 ls2 []"

definition retrieveVariants :: "Splitter \<Rightarrow> Literal list \<Rightarrow> ClausePtr list" where
  "retrieveVariants st ls =
     filter (\<lambda>p. isVariant (literals (clauses st ! p)) ls) (variantIndex st)"

subsection \<open>Variable-disjoint components\<close>

fun varsOf :: "TermList \<Rightarrow> nat list" where
  "varsOf (Var x) = [x]"
| "varsOf (Fn f ts) = concat (map varsOf ts)"

text \<open>\<open>Term::VariableIterator\<close>: the variable occurrences of a literal.\<close>

definition literalVars :: "Literal \<Rightarrow> nat list" where
  "literalVars l = concat (map varsOf (args l))"

text \<open>
  Modelled from the spec: \<open>IntUnionFind\<close> is not among the sources. The partition of
  \<open>0 ..< n\<close> is kept as the list that maps every element to the least element of its
  class; \<open>doUnion\<close> merges two classes; the components are enumerated by least element
  and each component in increasing order.
\<close>

type_synonym IntUnionFind = "nat list"

definition newUnionFind :: "nat \<Rightarrow> IntUnionFind" where
  "newUnionFind n = [0 ..< n]"

definition doUnion :: "nat \<Rightarrow> nat \<Rightarrow> IntUnionFind \<Rightarrow> IntUnionFind" where
  "doUnion a b uf =
     (let ra = uf ! a; rb = uf ! b
      in map (\<lambda>r. if r = max ra rb then min ra rb else r) uf)"

definition getComponents :: "IntUnionFind \<Rightarrow> nat list list" where
  "getComponents uf =
     map (\<lambda>r. filter (\<lambda>j. uf ! j = r) [0 ..< length uf])
         (filter (\<lambda>i. uf ! i = i) [0 ..< length uf])"

text \<open>
  The loop of \<open>doSplitting\<close> over the variable occurrences of literal \<open>i\<close>: the master
  of a variable is the first literal it was seen in (\<open>varMasters.findOrInsert\<close>).
\<close>

fun linkVars ::
  "nat \<Rightarrow> nat list \<Rightarrow> (nat \<times> nat) list \<times> IntUnionFind \<Rightarrow> (nat \<times> nat) list \<times> IntUnionFind" where
  "linkVars i [] acc = acc"
| "linkVars i (v # vs) (varMasters, components) =
     (case map_of varMasters v of
        None \<Rightarrow> linkVars i vs ((v, i) # varMasters, components)
      | Some master \<Rightarrow>
          linkVars i vs
            (varMasters, if master \<noteq> i then doUnion master i components else components))"

fun linkLiterals ::
  "Literal list \<Rightarrow> nat list \<Rightarrow> (nat \<times> nat) list \<times> IntUnionFind \<Rightarrow> (nat \<times> nat) list \<times> IntUnionFind" where
  "linkLiterals ls [] acc = acc"
| "linkLiterals ls (i # is) acc = linkLiterals ls is (linkVars i (literalVars (ls ! i)) acc)"

definition clauseComponents :: "Literal list \<Rightarrow> nat list list" where
  "clauseComponents ls =
     getComponents (snd (linkLiterals ls [0 ..< length ls] ([], newUnionFind (length ls))))"

subsection \<open>Names of propositional predicates\<close>

text \<open>
  \<open>Splitter::getPropPredName\<close>. The result is \<open>(name, premise, newPremise)\<close>;
  \<open>newPremise=*ppremise\<close> converts the pointer found in the map to a \<open>bool\<close>, so it is
  true iff the premise was already there.
\<close>

definition getPropPredName :: "Literal \<Rightarrow> Splitter \<Rightarrow> (int \<times> ClausePtr \<times> bool) \<times> Splitter" where
  "getPropPredName lit st =
     (let pred = functor' lit;
          (name, st1) =
            (case map_of (propPredNames st) pred of
               Some n \<Rightarrow> (n, st)
             | None \<Rightarrow>
                 (let (v, st') = getNewVar st
                  in (v, st'\<lparr>propPredNames := (pred, v) # propPredNames st'\<rparr>)));
          ppremise =
            (if isPositive lit then map_of (propPredPosNamePremises st1) pred
             else map_of (propPredNegNamePremises st1) pred)
      in case ppremise of
           Some p \<Rightarrow> ((name, p, True), st1)
         | None \<Rightarrow>
             (let (cl, st2) = allocClause (newClause [lit] AXIOM (Inference0 CLAUSE_NAMING)) st1;
                  st3 = setProp cl (getAtomic name (isNegative lit)) st2;
                  st4 = record' (NonPropInference cl) st3;
                  st5 =
                    (if isPositive lit
                     then st4\<lparr>propPredPosNamePremises := (pred, cl) # propPredPosNamePremises st4\<rparr>
                     else st4\<lparr>propPredNegNamePremises := (pred, cl) # propPredNegNamePremises st4\<rparr>)
              in ((name, cl, False), st5)))"

abbreviation nameOf :: "(int \<times> ClausePtr \<times> bool) \<times> Splitter \<Rightarrow> int" where
  "nameOf r \<equiv> fst (fst r)"

abbreviation premiseOf :: "(int \<times> ClausePtr \<times> bool) \<times> Splitter \<Rightarrow> ClausePtr" where
  "premiseOf r \<equiv> fst (snd (fst r))"

subsection \<open>The variant index and the no-split path\<close>

text \<open>\<open>Splitter::insertIntoIndex\<close>; the result is \<open>(clause, newInserted, modified)\<close>.\<close>

definition insertIntoIndex :: "ClausePtr \<Rightarrow> Splitter \<Rightarrow> (ClausePtr \<times> bool \<times> bool) \<times> Splitter" where
  "insertIntoIndex cl st =
     (case retrieveVariants st (literals (clauses st ! cl)) of
        cmp # _ \<Rightarrow>
          (let oldCompProp = prop' (clauses st ! cmp);
               oldClProp = prop' (clauses st ! cl);
               newCompProp = conjunction oldCompProp oldClProp
           in if oldCompProp = newCompProp then ((cmp, False, False), st)
              else ((cmp, False, True),
                    record' (MergeRecord cmp oldCompProp cl newCompProp)
                      (setProp cmp newCompProp st)))
      | [] \<Rightarrow>
          ((cl, True, False),
           st\<lparr>uniqueComponents := uniqueComponents st + 1,
              variantIndex := variantIndex st @ [cl]\<rparr>))"

text \<open>
  The first block of \<open>Splitter::handleNoSplit\<close>, for a clause of one literal of arity 0:
  the literal is named and the clause is replaced by a new clause without literals.
\<close>

definition namePropUnit :: "ClausePtr \<Rightarrow> Splitter \<Rightarrow> ClausePtr \<times> Splitter" where
  "namePropUnit cl st =
     (let lit = literals (clauses st ! cl) ! 0;
          ((name, premise, newPremise), st1) = getPropPredName lit st;
          (newCl, st2) =
            allocClause (newClause [] (inputType (clauses st1 ! cl)) (Inference2 SPLITTING cl premise)) st1;
          st3 = setProp newCl (getAtomic name (isPositive lit)) st2;
          st4 = record' (NonPropInference newCl) st3
      in (newCl, st4))"

text \<open>
  The rest of \<open>handleNoSplit\<close>: the clause goes into the variant index and is reported
  as a new or as a modified component. The result is
  \<open>((newComponents, modifiedComponents), state)\<close>.
\<close>

definition indexAndReport ::
  "ClausePtr \<Rightarrow> Splitter \<Rightarrow> (ClausePtr list \<times> ClausePtr list) \<times> Splitter" where
  "indexAndReport cl st =
     (let ((insCl, newInserted, modified), st1) = insertIntoIndex cl st
      in if newInserted then (([insCl], []), st1)
         else if modified then
           (if literals (clauses st1 ! insCl) = [] \<and> isFalse (prop' (clauses st1 ! insCl)) then
              (let oldClProp = prop' (clauses st1 ! cl);
                   st2 = setProp cl (prop' (clauses st1 ! insCl)) st1;
                   st3 = record' (MergeRecord cl oldClProp insCl (prop' (clauses st2 ! cl))) st2
               in (([cl], []), st3))
            else (([], [insCl]), st1))
         else (([], []), st1))"

definition handleNoSplit ::
  "ClausePtr \<Rightarrow> Splitter \<Rightarrow> (ClausePtr list \<times> ClausePtr list) \<times> Splitter" where
  "handleNoSplit cl st =
     (if length (literals (clauses st ! cl)) = 1 \<and> arity (literals (clauses st ! cl) ! 0) = 0
      then (let (newCl, st') = namePropUnit cl st in indexAndReport newCl st')
      else indexAndReport cl st)"

subsection \<open>Splitting into components\<close>

text \<open>
  The local variables of \<open>doSplitting\<close> that its loops update. A \<open>Stack\<close> is a list
  with the top at the head; \<open>Stack::Iterator\<close> runs from the top, \<open>begin()\<close> is the
  bottom.
\<close>

record SplitLoop =
  sp :: Splitter
  newMasterProp :: BDDNode
  masterPremises :: "ClausePtr list"
  remainingComps :: int
  unnamedComponentStack :: "ClausePtr list"
  newComponentStack :: "ClausePtr list"
  masterComp :: "ClausePtr option"

text \<open>The body of the first loop (\<open>cit0\<close>): the propositional components.\<close>

definition propComponentStep :: "ClausePtr \<Rightarrow> SplitLoop \<Rightarrow> nat list \<Rightarrow> SplitLoop" where
  "propComponentStep cl L cmp =
     (case cmp of
        [i] \<Rightarrow>
          (let lit = literals (clauses (sp L) ! cl) ! i
           in if arity lit \<noteq> 0 then L
              else (let ((name, premise, newPremise), st') = getPropPredName lit (sp L)
                    in L\<lparr>sp := st',
                         remainingComps := remainingComps L - 1,
                         newMasterProp :=
                           disjunction (newMasterProp L) (getAtomic name (isPositive lit)),
                         masterPremises := premise # masterPremises L\<rparr>))
      | _ \<Rightarrow> L)"

text \<open>
  The body of the second loop (\<open>cit\<close>): the other components. \<open>Inl\<close> is the early
  return taken when the propositional part of the clause became true.
\<close>

definition componentStep :: "ClausePtr \<Rightarrow> SplitLoop \<Rightarrow> nat list \<Rightarrow> Splitter + SplitLoop" where
  "componentStep cl L cmp =
     (let lits = map (\<lambda>i. literals (clauses (sp L) ! cl) ! i) cmp
      in if length lits = 1 \<and> arity (last lits) = 0 then Inr L
         else
           (let L1 = L\<lparr>remainingComps := remainingComps L - 1\<rparr>
            in case retrieveVariants (sp L1) lits of
                 c # _ \<Rightarrow>
                   (case map_of (clauseNames (sp L1)) c of
                      Some compName \<Rightarrow>
                        if remainingComps L1 = 0 \<and> newComponentStack L1 = []
                           \<and> unnamedComponentStack L1 = []
                        then Inr (L1\<lparr>masterComp := Some c\<rparr>)
                        else
                          (let nmp = disjunction (newMasterProp L1) (getAtomic compName True)
                           in if isTrue nmp then Inl (sp L1)
                              else Inr (L1\<lparr>newMasterProp := nmp,
                                            masterPremises := c # masterPremises L1\<rparr>))
                    | None \<Rightarrow>
                        Inr (L1\<lparr>unnamedComponentStack := c # unnamedComponentStack L1\<rparr>))
               | [] \<Rightarrow>
                   (let st1 = (sp L1)\<lparr>uniqueComponents := uniqueComponents (sp L1) + 1\<rparr>;
                        (c, st2) =
                          allocClause
                            (newClause (rev lits) (inputType (clauses st1 ! cl))
                               (Inference0 TAUTOLOGY_INTRODUCTION)) st1;
                        st3 = st2\<lparr>variantIndex := variantIndex st2 @ [c]\<rparr>;
                        st4 = setProp c getTrue st3;
                        st5 = record' (NonPropInference c) st4
                    in Inr (L1\<lparr>sp := st5, newComponentStack := c # newComponentStack L1\<rparr>))))"

fun componentLoop :: "ClausePtr \<Rightarrow> SplitLoop \<Rightarrow> nat list list \<Rightarrow> Splitter + SplitLoop" where
  "componentLoop cl L [] = Inr L"
| "componentLoop cl L (cmp # comps) =
     (case componentStep cl L cmp of
        Inl st \<Rightarrow> Inl st
      | Inr L' \<Rightarrow> componentLoop cl L' comps)"

text \<open>The choice of the master component; the result is \<open>((masterComp, masterNew), L)\<close>.\<close>

definition chooseMaster :: "SplitLoop \<Rightarrow> (ClausePtr \<times> bool) \<times> SplitLoop" where
  "chooseMaster L =
     (if newComponentStack L \<noteq> [] then
        ((hd (newComponentStack L), True), L\<lparr>newComponentStack := tl (newComponentStack L)\<rparr>)
      else if unnamedComponentStack L \<noteq> [] then
        ((hd (unnamedComponentStack L), False),
         L\<lparr>unnamedComponentStack := tl (unnamedComponentStack L)\<rparr>)
      else
        (case masterComp L of
           Some m \<Rightarrow> ((m, False), L)
         | None \<Rightarrow>
             (let (emptyCl, st1) =
                    allocClause (newClause [] AXIOM (Inference0 TAUTOLOGY_INTRODUCTION)) (sp L);
                  st2 = setProp emptyCl getTrue st1;
                  ((m, aux1, aux2), st3) = insertIntoIndex emptyCl st2
              in ((m, m = emptyCl), L\<lparr>sp := st3\<rparr>))))"

text \<open>The body of the loop over \<open>unnamedIt\<close>: naming the components other than the master.\<close>

definition nameComponentStep :: "ClausePtr \<Rightarrow> SplitLoop \<Rightarrow> ClausePtr \<Rightarrow> SplitLoop" where
  "nameComponentStep master L cmp =
     (if cmp = master then L
      else
        (let (compName, st1) = getNewVar (sp L)
         in if map_of (clauseNames st1) cmp = None then
              (let st2 = st1\<lparr>clauseNames := (cmp, compName) # clauseNames st1\<rparr>;
                   oldCompProp = prop' (clauses st2 ! cmp);
                   newCompProp = conjunction oldCompProp (getAtomic compName False);
                   st3 =
                     (if newCompProp \<noteq> oldCompProp
                      then record' (PropAlter cmp oldCompProp newCompProp CLAUSE_NAMING)
                             (setProp cmp newCompProp st2)
                      else st2)
               in L\<lparr>sp := st3,
                    newMasterProp := disjunction (newMasterProp L) (getAtomic compName True),
                    masterPremises := cmp # masterPremises L\<rparr>)
            else L\<lparr>sp := st1\<rparr>))"

text \<open>The end of \<open>doSplitting\<close>: the master gets its propositional part and the event is recorded.\<close>

definition finishSplitting ::
  "SplitLoop \<Rightarrow> (ClausePtr list \<times> ClausePtr list) \<times> Splitter" where
  "finishSplitting L0 =
     (let ((master, masterNew), L1) = chooseMaster L0;
          L2 = foldl (nameComponentStep master) L1
                 (newComponentStack L1 @ unnamedComponentStack L1);
          oldProp = prop' (clauses (sp L2) ! master);
          st1 = setProp master (conjunction oldProp (newMasterProp L2)) (sp L2);
          st2 = record' (SplittingRecord master oldProp (prop' (clauses st1 ! master))
                           (rev (masterPremises L2))) st1
      in if \<not> masterNew then
           (if oldProp \<noteq> prop' (clauses st2 ! master)
            then ((newComponentStack L2, master # unnamedComponentStack L2), st2)
            else ((newComponentStack L2, unnamedComponentStack L2), st2))
         else ((master # newComponentStack L2, unnamedComponentStack L2), st2))"

definition startSplitting :: "ClausePtr \<Rightarrow> nat list list \<Rightarrow> Splitter \<Rightarrow> SplitLoop" where
  "startSplitting cl comps st =
     \<lparr>sp = st\<lparr>splittedClauses := splittedClauses st + 1,
                splittedComponents := splittedComponents st + of_nat (length comps)\<rparr>,
      newMasterProp = prop' (clauses st ! cl),
      masterPremises = [cl],
      remainingComps = int (length comps),
      unnamedComponentStack = [],
      newComponentStack = [],
      masterComp = None\<rparr>"

text \<open>\<open>Splitter::doSplitting\<close>; the result is \<open>((newComponents, modifiedComponents), state)\<close>.\<close>

definition doSplitting ::
  "ClausePtr \<Rightarrow> Splitter \<Rightarrow> (ClausePtr list \<times> ClausePtr list) \<times> Splitter" where
  "doSplitting cl st =
     (if length (literals (clauses st ! cl)) \<le> 1 then handleNoSplit cl st
      else
        (let comps = clauseComponents (literals (clauses st ! cl))
         in if length comps = 1 then handleNoSplit cl st
            else
              (let L0 = startSplitting cl comps st;
                   L1 = foldl (propComponentStep cl) L0 comps
               in case componentLoop cl L1 comps of
                    Inl st' \<Rightarrow> (([], []), st')
                  | Inr L2 \<Rightarrow> finishSplitting L2)))"

text \<open>The splitter before any clause was seen, with 1 as the next BDD variable.\<close>

definition emptySplitter :: Splitter where
  "emptySplitter =
     \<lparr>clauses = [], bddNewVar = 1, inferenceStore = [],
      splittedClauses = 0, splittedComponents = 0, uniqueComponents = 0,
      variantIndex = [], clauseNames = [], propPredNames = [],
      propPredPosNamePremises = [], propPredNegNamePremises = []\<rparr>"

subsection \<open>Well-formed splitter states\<close>

text \<open>
  What holds of the naming premises in every state the splitter reaches from
  \<open>emptySplitter\<close> by \<open>doSplitting\<close> on allocated clauses that are not naming premises
  themselves: the premise stored for the predicate \<open>pr\<close> and the polarity \<open>pol\<close> is
  an allocated clause, consists of the literal of \<open>pr\<close> with that polarity and no
  arguments, carries the atom of the name of \<open>pr\<close> with the opposite polarity, was
  recorded in the inference store, and is not in the variant index.
\<close>

definition premiseOK :: "Splitter \<Rightarrow> bool \<Rightarrow> 32 word \<times> ClausePtr \<Rightarrow> bool" where
  "premiseOK st pol e =
     (snd e < length (clauses st)
      \<and> literals (clauses st ! snd e) = [\<lparr>functor' = fst e, polarity = pol, args = []\<rparr>]
      \<and> (case map_of (propPredNames st) (fst e) of
            None \<Rightarrow> False
          | Some n \<Rightarrow> prop' (clauses st ! snd e) = getAtomic n (\<not> pol))
      \<and> NonPropInference (snd e) \<in> set (inferenceStore st)
      \<and> snd e \<notin> set (variantIndex st))"

definition splitterOK :: "Splitter \<Rightarrow> bool" where
  "splitterOK st =
     (list_all (premiseOK st True) (propPredPosNamePremises st)
      \<and> list_all (premiseOK st False) (propPredNegNamePremises st)
      \<and> list_all (\<lambda>p. p < length (clauses st)) (variantIndex st))"

text \<open>The clauses that are naming premises of propositional predicates.\<close>

definition premisePtrs :: "Splitter \<Rightarrow> ClausePtr set" where
  "premisePtrs st = snd ` set (propPredPosNamePremises st) \<union> snd ` set (propPredNegNamePremises st)"

text \<open>
  \<open>quiet st st'\<close>: from \<open>st\<close> to \<open>st'\<close> clauses were only allocated, no clause was
  named, and only new clauses were recorded in the inference store.
\<close>

definition quiet :: "Splitter \<Rightarrow> Splitter \<Rightarrow> bool" where
  "quiet st st' =
     (take (length (clauses st)) (clauses st') = clauses st
      \<and> clauseNames st' = clauseNames st
      \<and> (\<exists>ps. inferenceStore st' = inferenceStore st @ map NonPropInference ps))"

text \<open>
  \<open>indexPhase st st'\<close>: what the part of \<open>doSplitting\<close> after the propositional
  components does to the state. The names and premises of propositional predicates stay;
  clauses are allocated, and an old clause changes only if it is in the variant index;
  the index grows by newly allocated clauses.
\<close>

definition indexPhase :: "Splitter \<Rightarrow> Splitter \<Rightarrow> bool" where
  "indexPhase st st' =
     (propPredNames st' = propPredNames st
      \<and> propPredPosNamePremises st' = propPredPosNamePremises st
      \<and> propPredNegNamePremises st' = propPredNegNamePremises st
      \<and> length (clauses st) \<le> length (clauses st')
      \<and> set (inferenceStore st) \<subseteq> set (inferenceStore st')
      \<and> set (variantIndex st) \<subseteq> set (variantIndex st')
      \<and> (\<forall>q < length (clauses st). q \<notin> set (variantIndex st') \<longrightarrow>
            clauses st' ! q = clauses st ! q)
      \<and> (\<forall>q \<in> set (variantIndex st').
            q < length (clauses st') \<and> (q \<in> set (variantIndex st) \<or> length (clauses st) \<le> q)))"

text \<open>The components kept on the stacks of \<open>doSplitting\<close> are clauses of the variant index.\<close>

definition stacksInIndex :: "SplitLoop \<Rightarrow> bool" where
  "stacksInIndex L =
     (set (newComponentStack L) \<union> set (unnamedComponentStack L) \<union> set_option (masterComp L)
        \<subseteq> set (variantIndex (sp L)))"

section \<open>Answer literals (Shell/AnswerExtractor.cpp)\<close>

text \<open>
  Modelled from the spec: the signature (\<open>env.signature\<close>) is not among the sources. It
  gives every predicate number its symbol; of a symbol the code reads the arity and the
  answer-predicate mark. \<open>addNamePredicate\<close> introduces the next unused predicate number.
\<close>

record Symbol =
  symName :: string
  symArity :: nat
  answerPredicate :: bool

record Signature =
  symbols :: "32 word \<Rightarrow> Symbol"
  predCount :: "32 word"

definition getPredicate :: "Signature \<Rightarrow> 32 word \<Rightarrow> Symbol" where
  "getPredicate sg pred = symbols sg pred"

definition addNamePredicate :: "nat \<Rightarrow> string \<Rightarrow> Signature \<Rightarrow> 32 word \<times> Signature" where
  "addNamePredicate ar name sg =
     (predCount sg,
      sg\<lparr>symbols := (symbols sg)
              (predCount sg := \<lparr>symName = name, symArity = ar, answerPredicate = False\<rparr>),
         predCount := predCount sg + 1\<rparr>)"

text \<open>The signature before any symbol is added: only equality, predicate 0 of arity 2.\<close>

definition initialSignature :: Signature where
  "initialSignature =
     \<lparr>symbols = (\<lambda>p. \<lparr>symName = ''='', symArity = 2, answerPredicate = False\<rparr>),
      predCount = 1\<rparr>"

definition markAnswerPredicate :: "32 word \<Rightarrow> Signature \<Rightarrow> Signature" where
  "markAnswerPredicate pred sg =
     sg\<lparr>symbols := (symbols sg)(pred := (symbols sg pred)\<lparr>answerPredicate := True\<rparr>)\<rparr>"

text \<open>
  Modelled from the spec: formulas and units (Kernel/Formula.hpp, Kernel/Unit.hpp,
  Kernel/FormulaUnit.hpp) are not among the sources. A \<open>FormulaList\<close> is a linked list;
  \<open>FormulaList::push\<close> puts the new element in front. The variables that a quantifier
  binds are a list of machine integers, which the code reads as \<open>unsigned\<close> variable
  numbers.
\<close>

datatype Connective = LITERAL | AND | OR | IMP | IFF | XOR | NOT | FORALL | EXISTS

datatype Formula =
    AtomicFormula Literal
  | JunctionFormula Connective "Formula list"
  | BinaryFormula Connective Formula Formula
  | NegatedFormula Formula
  | QuantifiedFormula Connective "32 word list" Formula

fun connective :: "Formula \<Rightarrow> Connective" where
  "connective (AtomicFormula l) = LITERAL"
| "connective (JunctionFormula c fs) = c"
| "connective (BinaryFormula c f g) = c"
| "connective (NegatedFormula f) = NOT"
| "connective (QuantifiedFormula c vs f) = c"

datatype Unit =
    ClauseUnit Clause
  | FormulaUnit Formula Inference InputType

fun isClause :: "Unit \<Rightarrow> bool" where
  "isClause (ClauseUnit c) = True"
| "isClause (FormulaUnit f i t) = False"

fun unitInputType :: "Unit \<Rightarrow> InputType" where
  "unitInputType (ClauseUnit c) = inputType c"
| "unitInputType (FormulaUnit f i t) = t"

text \<open>The units allocated so far (a \<open>Unit*\<close> is an index) and the signature.\<close>

record Problem =
  units :: "Unit list"
  signature :: Signature

text \<open>
  \<open>TermList::makeVar\<close>, as called by the constructor \<open>TermList(var, false)\<close>:
  \<open>_content = vnumber * 4 + ORD_VAR\<close> with \<open>ORD_VAR = 1u\<close> is computed in
  \<open>unsigned\<close> arithmetic and wraps at \<open>2 ^ 32\<close>; the number of the variable
  made is what \<open>TermList::var\<close> reads back, \<open>_content / 4\<close>.
\<close>

definition makeVar :: "32 word \<Rightarrow> TermList" where
  "makeVar vnumber = Var (unat (vnumber * 4 + 1) div 4)"

text \<open>
  \<open>AnswerLiteralManager::getAnswerLiteral\<close>: the arguments are the variables in the
  order of the list, each read as \<open>unsigned var = vit.next()\<close> and made into a term by
  \<open>TermList(var, false)\<close>; \<open>Literal::create(pred, vcnt, true, false, litArgs.begin())\<close>
  makes a positive literal.
\<close>

definition getAnswerLiteral :: "32 word list \<Rightarrow> Signature \<Rightarrow> Literal \<times> Signature" where
  "getAnswerLiteral vars sg =
     (let litArgs = map makeVar vars;
          vcnt = length litArgs;
          (pred, sg1) = addNamePredicate vcnt ''ans'' sg;
          sg2 = markAnswerPredicate pred sg1
      in (\<lparr>functor' = pred, polarity = True, args = litArgs\<rparr>, sg2))"

text \<open>
  \<open>AnswerLiteralManager::tryAddingAnswerLiteral\<close>. \<open>Flattening::flatten\<close> is not among
  the sources and is the parameter \<open>flatten\<close>. The result is the unit returned (the
  argument itself, or the new unit) and the state.
\<close>

definition tryAddingAnswerLiteral ::
  "(Formula \<Rightarrow> Formula) \<Rightarrow> UnitPtr \<Rightarrow> Problem \<Rightarrow> UnitPtr \<times> Problem" where
  "tryAddingAnswerLiteral flatten unit st =
     (case units st ! unit of
        ClauseUnit c \<Rightarrow> (unit, st)
      | FormulaUnit form i ty \<Rightarrow>
          if ty \<noteq> CONJECTURE then (unit, st)
          else
            (case form of
               NegatedFormula (QuantifiedFormula EXISTS vars qarg) \<Rightarrow>
                 (let conjArgs = [qarg];
                      (ansLit, sg) = getAnswerLiteral vars (signature st);
                      conjArgs = AtomicFormula ansLit # conjArgs;
                      conj = JunctionFormula AND conjArgs;
                      newQuant = QuantifiedFormula EXISTS vars conj;
                      newForm = flatten (NegatedFormula newQuant);
                      res = FormulaUnit newForm (Inference1 ANSWER_LITERAL unit) ty
                  in (length (units st), st\<lparr>units := units st @ [res], signature := sg\<rparr>))
             | _ \<Rightarrow> (unit, st)))"

text \<open>
  Modelled from the spec: flattening merges a conjunction or disjunction nested directly
  in one of the same kind, and a quantifier nested directly in one of the same kind
  (the variables of the inner one first). It is used to evaluate
  \<open>tryAddingAnswerLiteral\<close> on examples.
\<close>

fun flatten :: "Formula \<Rightarrow> Formula"
  and flattenList :: "Connective \<Rightarrow> Formula list \<Rightarrow> Formula list" where
  "flatten (AtomicFormula l) = AtomicFormula l"
| "flatten (JunctionFormula c fs) = JunctionFormula c (flattenList c fs)"
| "flatten (BinaryFormula c f g) = BinaryFormula c (flatten f) (flatten g)"
| "flatten (NegatedFormula f) = NegatedFormula (flatten f)"
| "flatten (QuantifiedFormula c vs f) =
     (case flatten f of
        QuantifiedFormula c' vs' g \<Rightarrow>
          if c' = c then QuantifiedFormula c (vs' @ vs) g
          else QuantifiedFormula c vs (QuantifiedFormula c' vs' g)
      | g \<Rightarrow> QuantifiedFormula c vs g)"
| "flattenList c [] = []"
| "flattenList c (f # fs) =
     (case flatten f of
        JunctionFormula c' gs \<Rightarrow>
          if c' = c then gs @ flattenList c fs
          else JunctionFormula c' gs # flattenList c fs
      | g \<Rightarrow> g # flattenList c fs)"

subsection \<open>Capturing answer clauses\<close>

text \<open>
  The state of the \<open>AnswerLiteralManager\<close>: the clause store and the signature it reads,
  its stack \<open>_answers\<close> (top at the head) and its map \<open>_resolverClauses\<close>.
\<close>

record AnswerLiteralManager =
  heap :: Store
  sig :: Signature
  answers :: "ClausePtr list"
  resolverClauses :: "(32 word \<times> ClausePtr) list"

datatype Exception = RefutationFoundException ClausePtr

definition isAnswerLiteral :: "Signature \<Rightarrow> Literal \<Rightarrow> bool" where
  "isAnswerLiteral sg lit = answerPredicate (getPredicate sg (functor' lit))"

text \<open>\<open>Clause::fromIterator\<close>: a new clause with the given literals.\<close>

definition fromIterator ::
  "Literal list \<Rightarrow> InputType \<Rightarrow> Inference \<Rightarrow> AnswerLiteralManager
     \<Rightarrow> ClausePtr \<times> AnswerLiteralManager" where
  "fromIterator ls ty infr st =
     (length (heap st), st\<lparr>heap := heap st @ [newClause ls ty infr]\<rparr>)"

text \<open>
  \<open>AnswerLiteralManager::getResolverClause\<close>: the resolver clause of an answer
  predicate, made on the first call and kept in \<open>_resolverClauses\<close>. Its arguments are
  the variables \<open>TermList(i, false)\<close> for \<open>i\<close> below the arity; the arity of a literal
  is a field of 27 bits (\<open>unsigned _arity : 27\<close>), and \<open>makeVar\<close> gives the variable
  \<open>i\<close> itself for every \<open>i\<close> below \<open>2 ^ 30\<close>.
\<close>

definition getResolverClause ::
  "32 word \<Rightarrow> AnswerLiteralManager \<Rightarrow> ClausePtr \<times> AnswerLiteralManager" where
  "getResolverClause pred st =
     (case map_of (resolverClauses st) pred of
        Some res \<Rightarrow> (res, st)
      | None \<Rightarrow>
          (let ar = symArity (getPredicate (sig st) pred);
               lit = \<lparr>functor' = pred, polarity = True, args = map Var [0 ..< ar]\<rparr>;
               (res, st1) = fromIterator [lit] AXIOM (Inference0 ANSWER_LITERAL) st
           in (res, st1\<lparr>resolverClauses := (pred, res) # resolverClauses st1\<rparr>)))"

text \<open>The loop of \<open>getRefutation\<close>; \<open>UnitList::push\<close> puts the premise in front.\<close>

fun resolverLoop ::
  "Literal list \<Rightarrow> UnitPtr list \<Rightarrow> AnswerLiteralManager \<Rightarrow> UnitPtr list \<times> AnswerLiteralManager" where
  "resolverLoop [] prems st = (prems, st)"
| "resolverLoop (l # ls) prems st =
     (let (resolvingPrem, st1) = getResolverClause (functor' l) st
      in resolverLoop ls (resolvingPrem # prems) st1)"

definition getRefutation ::
  "ClausePtr \<Rightarrow> AnswerLiteralManager \<Rightarrow> ClausePtr \<times> AnswerLiteralManager" where
  "getRefutation answer st =
     (let (prems, st1) = resolverLoop (literals (heap st ! answer)) [answer] st
      in fromIterator [] (inputType (heap st1 ! answer))
           (InferenceMany UNIT_RESULTING_RESOLUTION prems) st1)"

text \<open>
  \<open>AnswerLiteralManager::onNewClause\<close>: \<open>Inr ()\<close> is the plain return, \<open>Inl\<close> the
  exception thrown.
\<close>

definition onNewClause ::
  "ClausePtr \<Rightarrow> AnswerLiteralManager \<Rightarrow> (Exception + unit) \<times> AnswerLiteralManager" where
  "onNewClause cl st =
     (if \<not> noProp (heap st ! cl) \<or> \<not> noSplits (heap st ! cl) then (Inr (), st)
      else if \<not> list_all (isAnswerLiteral (sig st)) (literals (heap st ! cl)) then (Inr (), st)
      else
        (let st1 = st\<lparr>answers := cl # answers st\<rparr>;
             (refutation, st2) = getRefutation cl st1
         in (Inl (RefutationFoundException refutation), st2)))"

text \<open>
  The resolver clause kept for a predicate is an allocated clause \<open>{p(X0,...,Xn-1)}\<close> with
  \<open>n\<close> the arity of \<open>p\<close>, an axiom introduced by ANSWER_LITERAL.
\<close>

definition resolverOK :: "AnswerLiteralManager \<Rightarrow> 32 word \<times> ClausePtr \<Rightarrow> bool" where
  "resolverOK st e =
     (snd e < length (heap st)
      \<and> heap st ! snd e =
          newClause
            [\<lparr>functor' = fst e, polarity = True,
              args = map Var [0 ..< symArity (getPredicate (sig st) (fst e))]\<rparr>]
            AXIOM (Inference0 ANSWER_LITERAL))"

definition resolversOK :: "AnswerLiteralManager \<Rightarrow> bool" where
  "resolversOK st = list_all (resolverOK st) (resolverClauses st)"

subsection \<open>The substitution builder of the conjunctive goal extractor\<close>

text \<open>
  Modelled from the spec: \<open>RobSubstitution\<close> and the lemma index are not among the
  sources. They are the parameters of the builder: \<open>unifyArgs\<close> and \<open>unify\<close> take the
  substitution, two literals or terms and their variable banks, and give the extended
  substitution on success and \<open>None\<close> on failure (the substitution is then unchanged);
  \<open>getUnifications\<close> gives the literals the index returns for a query literal, in the
  order of its iterator.
\<close>

record 's Unification =
  unifyArgs :: "'s \<Rightarrow> Literal \<Rightarrow> nat \<Rightarrow> Literal \<Rightarrow> nat \<Rightarrow> 's option"
  unify :: "'s \<Rightarrow> TermList \<Rightarrow> nat \<Rightarrow> TermList \<Rightarrow> nat \<Rightarrow> 's option"
  getUnifications :: "Literal \<Rightarrow> Literal list"

text \<open>
  The members of \<open>SubstBuilder\<close>. \<open>_btData[d]\<close> records the changes made to the
  substitution since \<open>bdRecord\<close> at depth \<open>d\<close>, and \<open>backtrack\<close> undoes them: it is kept
  as the substitution at the time of \<open>bdRecord\<close>. \<open>_unifIts[d]\<close> is what the iterator
  at depth \<open>d\<close> has not yet returned.
\<close>

record 's SubstBuilder =
  goalLits :: "Literal list"
  subst :: 's
  btData :: "'s list"
  unifIts :: "Literal list list"
  triedEqUnif :: "bool list"
  depth :: nat

definition enterGoal :: "'s Unification \<Rightarrow> 's SubstBuilder \<Rightarrow> 's SubstBuilder" where
  "enterGoal U B =
     B\<lparr>unifIts := (unifIts B)[depth B := getUnifications U (goalLits B ! depth B)],
       triedEqUnif := (triedEqUnif B)[depth B := False],
       btData := (btData B)[depth B := subst B]\<rparr>"

definition leaveGoal :: "'s SubstBuilder \<Rightarrow> 's SubstBuilder" where
  "leaveGoal B = B\<lparr>subst := btData B ! depth B\<rparr>"

text \<open>
  The \<open>while\<close> loop of \<open>nextGoalUnif\<close>: the first lemma literal whose arguments unify
  with those of the goal literal (goal in bank 0, lemma in bank 1); the result is the
  new substitution, if any, and the rest of the iterator.
\<close>

fun nextLemmaUnif ::
  "'s Unification \<Rightarrow> 's \<Rightarrow> Literal \<Rightarrow> Literal list \<Rightarrow> 's option \<times> Literal list" where
  "nextLemmaUnif U s goalLit [] = (None, [])"
| "nextLemmaUnif U s goalLit (q # rest) =
     (case unifyArgs U s goalLit 0 q 1 of
        Some s' \<Rightarrow> (Some s', rest)
      | None \<Rightarrow> nextLemmaUnif U s goalLit rest)"

definition nextGoalUnif :: "'s Unification \<Rightarrow> 's SubstBuilder \<Rightarrow> bool \<times> 's SubstBuilder" where
  "nextGoalUnif U B =
     (let goalLit = goalLits B ! depth B
      in case nextLemmaUnif U (subst B) goalLit (unifIts B ! depth B) of
           (Some s', rest) \<Rightarrow>
             (True, B\<lparr>subst := s', unifIts := (unifIts B)[depth B := rest]\<rparr>)
         | (None, rest) \<Rightarrow>
             (let B1 = B\<lparr>unifIts := (unifIts B)[depth B := rest]\<rparr>
              in if \<not> triedEqUnif B1 ! depth B1 \<and> isEquality goalLit \<and> isPositive goalLit then
                   (let B2 = B1\<lparr>triedEqUnif := (triedEqUnif B1)[depth B1 := True]\<rparr>
                    in case unify U (subst B2) (args goalLit ! 0) 0 (args goalLit ! 1) 0 of
                         Some s' \<Rightarrow> (True, B2\<lparr>subst := s'\<rparr>)
                       | None \<Rightarrow> (False, B2))
                 else (False, B1)))"

text \<open>
  One round of the \<open>for(;;)\<close> loop of \<open>run\<close>: \<open>Inl\<close> when the loop is left (by \<open>break\<close>
  with all goals unified, or by \<open>return false\<close>), \<open>Inr\<close> when it goes on. After the
  \<open>break\<close>, \<open>run\<close> only closes the recordings with \<open>bdDone\<close>, which changes neither the
  substitution nor what was recorded.
\<close>

definition runStep ::
  "'s Unification \<Rightarrow> 's SubstBuilder \<Rightarrow> (bool \<times> 's SubstBuilder) + 's SubstBuilder" where
  "runStep U B =
     (case nextGoalUnif U B of
        (True, B1) \<Rightarrow>
          (let B2 = B1\<lparr>depth := depth B1 + 1\<rparr>
           in if depth B2 = length (goalLits B2) then Inl (True, B2)
              else Inr (enterGoal U B2))
      | (False, B1) \<Rightarrow>
          (let B2 = leaveGoal B1
           in if depth B2 = 0 then Inl (False, B2)
              else Inr (B2\<lparr>depth := depth B2 - 1\<rparr>)))"

partial_function (option) runLoop ::
  "'s Unification \<Rightarrow> 's SubstBuilder \<Rightarrow> (bool \<times> 's SubstBuilder) option" where
  "runLoop U B = (case runStep U B of Inl r \<Rightarrow> Some r | Inr B' \<Rightarrow> runLoop U B')"

definition run :: "'s Unification \<Rightarrow> 's SubstBuilder \<Rightarrow> (bool \<times> 's SubstBuilder) option" where
  "run U B = runLoop U (enterGoal U (B\<lparr>depth := 0\<rparr>))"

text \<open>
  The call of \<open>nextGoalUnif\<close> in the state \<open>B\<close> reaches the fallback
  \<open>_subst.unify(*goalLit->nthArgument(0), 0, *goalLit->nthArgument(1), 0)\<close>: the \<open>while\<close>
  loop ends without a unifier and the condition of the \<open>if\<close> after it holds.
\<close>

definition triesEqUnif :: "'s Unification \<Rightarrow> 's SubstBuilder \<Rightarrow> bool" where
  "triesEqUnif U B =
     (let goalLit = goalLits B ! depth B
      in fst (nextLemmaUnif U (subst B) goalLit (unifIts B ! depth B)) = None
         \<and> \<not> triedEqUnif B ! depth B \<and> isEquality goalLit \<and> isPositive goalLit)"

text \<open>
  The round of the loop of \<open>run\<close> that starts in the state \<open>B\<close> enters the goal at
  depth \<open>d\<close>: \<open>nextGoalUnif\<close> succeeds, \<open>_depth\<close> becomes \<open>d\<close>, which is not
  \<open>_goalCnt\<close>, and \<open>enterGoal\<close> is called.
\<close>

definition entersGoal :: "'s Unification \<Rightarrow> 's SubstBuilder \<Rightarrow> nat \<Rightarrow> bool" where
  "entersGoal U B d =
     (fst (nextGoalUnif U B) \<and> depth B + 1 = d \<and> d \<noteq> length (goalLits B))"

text \<open>
  The state after \<open>n\<close> further rounds of the loop of \<open>run\<close>, none of which enters the
  goal at depth \<open>d\<close>; \<open>None\<close> when the loop is left, or the goal at depth \<open>d\<close> is
  entered, within these rounds.
\<close>

fun runRounds ::
  "'s Unification \<Rightarrow> nat \<Rightarrow> nat \<Rightarrow> 's SubstBuilder \<Rightarrow> 's SubstBuilder option" where
  "runRounds U d 0 B = Some B"
| "runRounds U d (Suc n) B =
     (case runStep U B of
        Inl r \<Rightarrow> None
      | Inr B' \<Rightarrow> if entersGoal U B d then None else runRounds U d n B')"

text \<open>
  A unification for examples: the substitution is the list of bindings, never extended;
  two argument lists or two terms unify when they are equal.
\<close>

definition syntacticUnification :: "(nat \<times> TermList) list Unification" where
  "syntacticUnification =
     \<lparr>unifyArgs = (\<lambda>s l1 b1 l2 b2. if args l1 = args l2 then Some s else None),
      unify = (\<lambda>s t1 b1 t2 b2. if t1 = t2 then Some s else None),
      getUnifications = (\<lambda>l. [])\<rparr>"

section \<open>Literal headers\<close>

lemma unat_header:
  "unat (header l) = (2 * unat (functor' l) + unat (polarityBit l)) mod 2 ^ 32"
  by (simp add: header_def unat_word_ariths mod_simps)

lemma unat_polarityBit: "unat (polarityBit l) = (if polarity l then 1 else 0)"
  by (simp add: polarityBit_def)

lemma headerToPolarity_header: "headerToPolarity (header l) = polarityBit l"
proof -
  have "unat (headerToPolarity (header l)) = unat (header l) mod 2"
    by (simp add: headerToPolarity_def unat_mod_distrib)
  also have "\<dots> = (2 * unat (functor' l) + unat (polarityBit l)) mod 2 ^ 32 mod 2"
    by (simp only: unat_header)
  also have "\<dots> = (2 * unat (functor' l) + unat (polarityBit l)) mod 2"
    by (rule mod_mod_cancel) simp
  also have "\<dots> = unat (polarityBit l)"
    by (simp add: unat_polarityBit)
  finally show ?thesis by (rule word_unat_eq_iff [THEN iffD2])
qed

lemma headerToPredicateNumber_header:
  assumes "unat (functor' l) < 2 ^ 31"
  shows "headerToPredicateNumber (header l) = functor' l"
proof -
  have "unat (header l) = 2 * unat (functor' l) + unat (polarityBit l)"
    using assms by (simp add: unat_header unat_polarityBit)
  then have "unat (headerToPredicateNumber (header l)) = unat (functor' l)"
    by (simp add: headerToPredicateNumber_def unat_div_distrib unat_polarityBit)
  then show ?thesis by (rule word_unat_eq_iff [THEN iffD2])
qed
lemma unat_complementaryHeader:
  "unat (complementaryHeader l) =
     (2 * unat (functor' l) + 1 - unat (polarityBit l)) mod 2 ^ 32"
  by (simp add: complementaryHeader_def polarityBit_def unat_word_ariths mod_simps)

lemma complementaryHeader_flip:
  "complementaryHeader l = header (l\<lparr>polarity := \<not> polarity l\<rparr>)"
  by (simp add: complementaryHeader_def header_def polarityBit_def)

text \<open>
  C7, as stated, at the predicate number \<open>2^31\<close>: the header is computed in 32-bit unsigned
  arithmetic, so \<open>2 * 2^31 + 0\<close> wraps to 0. The header is then not \<open>2*p + q\<close> and
  \<open>headerToPredicateNumber\<close> does not give the predicate number back.
\<close>

theorem header_roundtrip_counterexample:
  "unat (header \<lparr>functor' = 2 ^ 31, polarity = False, args = []\<rparr>)
     \<noteq> 2 * unat (functor' \<lparr>functor' = 2 ^ 31, polarity = False, args = []\<rparr>)
         + unat (polarityBit \<lparr>functor' = 2 ^ 31, polarity = False, args = []\<rparr>)
   \<and> headerToPredicateNumber (header \<lparr>functor' = 2 ^ 31, polarity = False, args = []\<rparr>)
     \<noteq> functor' \<lparr>functor' = 2 ^ 31, polarity = False, args = []\<rparr>"
  by (simp add: headerToPredicateNumber_def header_def polarityBit_def)

text \<open>
  C7 (amended): for every literal with predicate number \<open>p\<close> and polarity \<open>q\<close>, the header
  is \<open>2*p + q\<close> and the complementary header \<open>2*p + 1 - q\<close> modulo \<open>2^32\<close>;
  \<open>headerToPolarity (header l) = q\<close>, and the complementary header is the header of the
  literal with the same predicate and the opposite polarity. When \<open>p < 2^31\<close> the two
  headers are exactly \<open>2*p + q\<close> and \<open>2*p + 1 - q\<close>, and
  \<open>headerToPredicateNumber (header l) = p\<close>.
\<close>

theorem header_roundtrip:
  "unat (header l) = (2 * unat (functor' l) + unat (polarityBit l)) mod 2 ^ 32
   \<and> unat (complementaryHeader l)
       = (2 * unat (functor' l) + 1 - unat (polarityBit l)) mod 2 ^ 32
   \<and> headerToPolarity (header l) = polarityBit l
   \<and> complementaryHeader l = header (l\<lparr>polarity := \<not> polarity l\<rparr>)
   \<and> (unat (functor' l) < 2 ^ 31 \<longrightarrow>
        unat (header l) = 2 * unat (functor' l) + unat (polarityBit l)
      \<and> unat (complementaryHeader l) = 2 * unat (functor' l) + 1 - unat (polarityBit l)
      \<and> headerToPredicateNumber (header l) = functor' l)"
proof (intro conjI impI)
  assume small: "unat (functor' l) < 2 ^ 31"
  show "unat (header l) = 2 * unat (functor' l) + unat (polarityBit l)"
    using small by (simp add: unat_header polarityBit_def)
  show "unat (complementaryHeader l) = 2 * unat (functor' l) + 1 - unat (polarityBit l)"
    using small by (simp add: unat_complementaryHeader polarityBit_def)
  show "headerToPredicateNumber (header l) = functor' l"
    using small by (rule headerToPredicateNumber_header)
qed (rule unat_header unat_complementaryHeader headerToPolarity_header
       complementaryHeader_flip)+

theorem header_roundtrip_witness:
  "unat (functor' \<lparr>functor' = 5, polarity = True, args = []\<rparr>) < 2 ^ 31
   \<and> unat (header \<lparr>functor' = 5, polarity = True, args = []\<rparr>) = 11
   \<and> unat (complementaryHeader \<lparr>functor' = 5, polarity = True, args = []\<rparr>) = 10
   \<and> headerToPredicateNumber (header \<lparr>functor' = 5, polarity = True, args = []\<rparr>) = 5
   \<and> headerToPolarity (header \<lparr>functor' = 5, polarity = True, args = []\<rparr>) = 1"
  using header_roundtrip [of "\<lparr>functor' = 5, polarity = True, args = []\<rparr>"]
  by (simp add: polarityBit_def header_def complementaryHeader_def headerToPredicateNumber_def
        headerToPolarity_def)

section \<open>Termination reason\<close>




section \<open>Equality of SAT clauses in the sharing hasher\<close>

lemma equals_loop_total_reader:
  "- 1 \<le> i \<Longrightarrow>
   equals_loop (\<lambda>c k. Inr (m c k)) c1 c2 i = Inr (\<forall>j\<in>{0..i}. m c1 j = m c2 j)"
proof (induction "nat (i + 1)" arbitrary: i)
  case 0
  then have "i = - 1" by simp
  then show ?case by (subst equals_loop.simps) simp
next
  case (Suc n)
  then have i: "0 \<le> i" "n = nat (i - 1 + 1)" "- 1 \<le> i - 1" by auto
  have IH: "equals_loop (\<lambda>c k. Inr (m c k)) c1 c2 (i - 1)
              = Inr (\<forall>j\<in>{0..i - 1}. m c1 j = m c2 j)"
    using Suc.hyps(1) [OF i(2) i(3)] .
  have range: "{0..i} = insert i {0..i - 1}" using i(1) by auto
  show ?case using i(1) IH by (subst equals_loop.simps) (auto simp: range)
qed

text \<open>
  C9: for SAT clauses \<open>c1\<close>, \<open>c2\<close> of equal length \<open>n\<close>, \<open>Hasher::equals\<close> compares the
  positions \<open>n, n-1, ..., 0\<close>: over a reader that answers at every index it returns
  whether the clauses agree on all of \<open>0..n\<close>, and with the checked reader its first read,
  at index \<open>n\<close> of a clause of length \<open>n\<close>, is out of range, for every \<open>n\<close> (0 included).
\<close>

theorem equals_reads_past_end:
  "length c1 = length c2 \<Longrightarrow>
     equals c1 c2 = Inl (OutOfRange (int (length c1)) (length c1))
   \<and> equals_with (\<lambda>c k. Inr (m c k)) c1 c2
       = Inr (\<forall>j\<in>{0..int (length c1)}. m c1 j = m c2 j)"
proof (intro conjI)
  assume len: "length c1 = length c2"
  have "equals_loop lit_at c1 c2 (int (length c1))
          = Inl (OutOfRange (int (length c1)) (length c1))"
    by (subst equals_loop.simps) (simp add: lit_at_def)
  then show "equals c1 c2 = Inl (OutOfRange (int (length c1)) (length c1))"
    using len by (simp add: equals_def equals_with_def)
  show "equals_with (\<lambda>c k. Inr (m c k)) c1 c2
          = Inr (\<forall>j\<in>{0..int (length c1)}. m c1 j = m c2 j)"
    using len by (simp add: equals_with_def equals_loop_total_reader)
qed

theorem equals_reads_past_end_witness:
  "length [3, 4 :: SATLiteral] = length [3, 4 :: SATLiteral]
   \<and> equals [3, 4] [3, 4] = Inl (OutOfRange 2 2)
   \<and> length ([] :: SATClause) = length ([] :: SATClause)
   \<and> equals [] [] = Inl (OutOfRange 0 0)"
  using equals_reads_past_end [of "[3, 4]" "[3, 4]"] equals_reads_past_end [of "[]" "[]"]
  by simp

section \<open>Names of propositional predicates in the splitter\<close>

lemmas gppn_defs = getPropPredName_def Let_def getNewVar_def allocClause_def setProp_def record'_def

lemma gppn_name:
  "getPropPredName lit st = ((n, p, np), st') \<Longrightarrow>
     map_of (propPredNames st') (functor' lit) = Some n"
  by (auto simp: gppn_defs split: option.splits if_splits)

lemma gppn_name_stable:
  "getPropPredName lit st = (r, st') \<Longrightarrow> map_of (propPredNames st) pr = Some m \<Longrightarrow>
     map_of (propPredNames st') pr = Some m"
  by (auto simp: gppn_defs split: option.splits if_splits)

lemma gppn_name_old:
  "getPropPredName lit st = ((n, p, np), st') \<Longrightarrow>
   map_of (propPredNames st) (functor' lit) = Some m \<Longrightarrow>
     n = m \<and> bddNewVar st' = bddNewVar st \<and> propPredNames st' = propPredNames st"
  by (auto simp: gppn_defs split: option.splits if_splits)

lemma gppn_name_fresh:
  "getPropPredName lit st = ((n, p, np), st') \<Longrightarrow>
   map_of (propPredNames st) (functor' lit) = None \<Longrightarrow>
     n = bddNewVar st \<and> bddNewVar st' = bddNewVar st + 1
     \<and> propPredNames st' = (functor' lit, n) # propPredNames st"
  by (auto simp: gppn_defs split: option.splits if_splits)

lemma gppn_premise_map:
  "getPropPredName lit st = ((n, p, np), st') \<Longrightarrow>
     (if isPositive lit then map_of (propPredPosNamePremises st') (functor' lit) = Some p
      else map_of (propPredNegNamePremises st') (functor' lit) = Some p)"
  by (auto simp: gppn_defs split: option.splits if_splits)

lemma gppn_premise_new:
  "getPropPredName lit st = ((n, p, np), st') \<Longrightarrow>
   (if isPositive lit then map_of (propPredPosNamePremises st) (functor' lit)
    else map_of (propPredNegNamePremises st) (functor' lit)) = None \<Longrightarrow>
     p = length (clauses st) \<and> \<not> np
     \<and> clauses st' = clauses st @
          [\<lparr>literals = [lit], inputType = AXIOM, inference = Inference0 CLAUSE_NAMING,
            prop' = getAtomic n (isNegative lit), splits = []\<rparr>]
     \<and> inferenceStore st' = inferenceStore st @ [NonPropInference p]"
  by (auto simp: gppn_defs newClause_def split: option.splits if_splits)

lemma gppn_premise_old:
  "getPropPredName lit st = ((n, p, np), st') \<Longrightarrow>
   (if isPositive lit then map_of (propPredPosNamePremises st) (functor' lit)
    else map_of (propPredNegNamePremises st) (functor' lit)) = Some q \<Longrightarrow>
     p = q \<and> np \<and> clauses st' = clauses st \<and> inferenceStore st' = inferenceStore st
     \<and> propPredPosNamePremises st' = propPredPosNamePremises st
     \<and> propPredNegNamePremises st' = propPredNegNamePremises st"
  by (auto simp: gppn_defs split: option.splits if_splits)

lemma gppn_frame:
  "getPropPredName lit st = (r, st') \<Longrightarrow>
     variantIndex st' = variantIndex st \<and> clauseNames st' = clauseNames st
     \<and> splittedClauses st' = splittedClauses st
     \<and> splittedComponents st' = splittedComponents st
     \<and> uniqueComponents st' = uniqueComponents st
     \<and> length (clauses st) \<le> length (clauses st')
     \<and> (\<forall>q < length (clauses st). clauses st' ! q = clauses st ! q)
     \<and> set (inferenceStore st) \<subseteq> set (inferenceStore st')"
  by (auto simp: gppn_defs nth_append split: option.splits if_splits)


lemma premiseOK_mono:
  assumes "premiseOK st pol e"
    and "length (clauses st) \<le> length (clauses st')"
    and "\<forall>q < length (clauses st). clauses st' ! q = clauses st ! q"
    and "\<forall>pr m. map_of (propPredNames st) pr = Some m \<longrightarrow> map_of (propPredNames st') pr = Some m"
    and "set (inferenceStore st) \<subseteq> set (inferenceStore st')"
    and "variantIndex st' = variantIndex st"
  shows "premiseOK st' pol e"
  using assms unfolding premiseOK_def
  by (auto split: option.splits)

lemma literal_arity0:
  "arity lit = 0 \<Longrightarrow> lit = \<lparr>functor' = functor' lit, polarity = polarity lit, args = []\<rparr>"
  by (simp add: arity_def)

lemma gppn_OK:
  assumes ok: "splitterOK st" and ar: "arity lit = 0"
    and call: "getPropPredName lit st = ((n, p, np), st')"
  shows "splitterOK st'"
proof -
  note fr = gppn_frame [OF call]
  have names: "\<forall>pr m. map_of (propPredNames st) pr = Some m \<longrightarrow> map_of (propPredNames st') pr = Some m"
    using gppn_name_stable [OF call] by blast
  have mono: "premiseOK st pol e \<Longrightarrow> premiseOK st' pol e" for pol e
    by (rule premiseOK_mono [where st = st]) (use fr names in auto)
  have idx: "list_all (\<lambda>q. q < length (clauses st')) (variantIndex st')"
    using ok fr by (auto simp: splitterOK_def list_all_iff)
  have old_pos: "list_all (premiseOK st' True) (propPredPosNamePremises st)"
    and old_neg: "list_all (premiseOK st' False) (propPredNegNamePremises st)"
    using ok mono by (auto simp: splitterOK_def list_all_iff)
  show ?thesis
  proof (cases "(if isPositive lit then map_of (propPredPosNamePremises st) (functor' lit)
                 else map_of (propPredNegNamePremises st) (functor' lit))")
    case (Some q)
    from gppn_premise_old [OF call Some] old_pos old_neg idx show ?thesis
      by (simp add: splitterOK_def)
  next
    case None
    note new = gppn_premise_new [OF call None]
    have fresh: "p \<notin> set (variantIndex st')"
      using ok fr new by (auto simp: splitterOK_def list_all_iff)
    have "premiseOK st' (polarity lit) (functor' lit, p)"
      using new fresh gppn_name [OF call] literal_arity0 [OF ar]
      by (auto simp: premiseOK_def isNegative_def)
    moreover have "if isPositive lit
       then propPredPosNamePremises st' = (functor' lit, p) # propPredPosNamePremises st
            \<and> propPredNegNamePremises st' = propPredNegNamePremises st
       else propPredNegNamePremises st' = (functor' lit, p) # propPredNegNamePremises st
            \<and> propPredPosNamePremises st' = propPredPosNamePremises st"
      using call None by (auto simp: gppn_defs split: option.splits if_splits)
    ultimately show ?thesis using old_pos old_neg idx
      by (auto simp: splitterOK_def isPositive_def split: if_splits)
  qed
qed

lemma gppn_premise_OK:
  assumes ok: "splitterOK st" and ar: "arity lit = 0"
    and call: "getPropPredName lit st = ((n, p, np), st')"
  shows "premiseOK st' (polarity lit) (functor' lit, p)"
proof -
  have "splitterOK st'" using gppn_OK [OF ok ar call] .
  moreover have "(functor' lit, p) \<in> set (if isPositive lit then propPredPosNamePremises st'
                                          else propPredNegNamePremises st')"
    using gppn_premise_map [OF call] by (auto dest: map_of_SomeD split: if_splits)
  ultimately show ?thesis
    by (auto simp: splitterOK_def list_all_iff isPositive_def split: if_splits)
qed


lemma gppn_premise_stable:
  "getPropPredName lit st = (r, st') \<Longrightarrow>
     (map_of (propPredPosNamePremises st) pr = Some q \<longrightarrow>
        map_of (propPredPosNamePremises st') pr = Some q)
   \<and> (map_of (propPredNegNamePremises st) pr = Some q \<longrightarrow>
        map_of (propPredNegNamePremises st') pr = Some q)"
  by (auto simp: gppn_defs split: option.splits if_splits)

lemma gppn_fold_stable:
  "foldl (\<lambda>s l. snd (getPropPredName l s)) st ls = st' \<Longrightarrow>
     (map_of (propPredNames st) pr = Some m \<longrightarrow> map_of (propPredNames st') pr = Some m)
   \<and> (map_of (propPredPosNamePremises st) pr = Some q \<longrightarrow>
        map_of (propPredPosNamePremises st') pr = Some q)
   \<and> (map_of (propPredNegNamePremises st) pr = Some q \<longrightarrow>
        map_of (propPredNegNamePremises st') pr = Some q)"
proof (induction ls arbitrary: st)
  case Nil
  then show ?case by simp
next
  case (Cons l ls)
  obtain r s where call: "getPropPredName l st = (r, s)" by (cases "getPropPredName l st")
  from Cons.prems have rest: "foldl (\<lambda>s l. snd (getPropPredName l s)) s ls = st'"
    by (simp add: call)
  show ?case
    using Cons.IH [OF rest] gppn_name_stable [OF call, of pr m]
      gppn_premise_stable [OF call, of pr q]
    by blast
qed

lemma gppn_fold_OK:
  "splitterOK st \<Longrightarrow> list_all (\<lambda>l. arity l = 0) ls \<Longrightarrow>
     splitterOK (foldl (\<lambda>s l. snd (getPropPredName l s)) st ls)"
proof (induction ls arbitrary: st)
  case Nil
  then show ?case by simp
next
  case (Cons l ls)
  obtain n p np s where call: "getPropPredName l st = ((n, p, np), s)"
    by (cases "getPropPredName l st") auto
  have "splitterOK s" using gppn_OK [OF Cons.prems(1) _ call] Cons.prems(2) by simp
  then show ?case using Cons.IH [of s] Cons.prems(2) by (simp add: call)
qed

lemma premiseOK_lookup:
  assumes "splitterOK st"
    and "(if pol then map_of (propPredPosNamePremises st) pr
          else map_of (propPredNegNamePremises st) pr) = Some p"
  shows "premiseOK st pol (pr, p)"
  using assms by (auto simp: splitterOK_def list_all_iff dest!: map_of_SomeD split: if_splits)

text \<open>
  C10: split names of propositional literals are allocated per predicate. Two calls of
  \<open>getPropPredName\<close> with literals of one predicate, of either polarity and with any
  calls in between, return the same BDD variable, which the first call allocates when the
  predicate has no name yet. In a well-formed state and for literals without arguments,
  each polarity keeps its own premise clause: the premise of a literal \<open>l\<close> is \<open>{l}\<close>
  with the propositional part \<open>getAtomic n (isNegative l)\<close>, so the premise of the
  positive literal carries \<open>atomic(n, false)\<close>, the premise of the negative literal
  \<open>atomic(n, true)\<close>, and the two are different clauses over the one variable \<open>n\<close>.
\<close>

theorem propPredName_shared_by_polarities:
  assumes same: "functor' l1 = functor' l2"
    and r1: "r1 = getPropPredName l1 st"
    and st2: "st2 = foldl (\<lambda>s l. snd (getPropPredName l s)) (snd r1) ls"
    and r2: "r2 = getPropPredName l2 st2"
  shows "nameOf r2 = nameOf r1
    \<and> (map_of (propPredNames st) (functor' l1) = None \<longrightarrow>
         nameOf r1 = bddNewVar st \<and> bddNewVar (snd r1) = bddNewVar st + 1)
    \<and> (splitterOK st \<and> arity l1 = 0 \<and> arity l2 = 0 \<and> list_all (\<lambda>l. arity l = 0) ls \<longrightarrow>
         literals (clauses (snd r2) ! premiseOf r1) = [l1]
       \<and> prop' (clauses (snd r2) ! premiseOf r1) = getAtomic (nameOf r1) (isNegative l1)
       \<and> literals (clauses (snd r2) ! premiseOf r2) = [l2]
       \<and> prop' (clauses (snd r2) ! premiseOf r2) = getAtomic (nameOf r1) (isNegative l2)
       \<and> (isPositive l1 \<and> isNegative l2 \<longrightarrow> premiseOf r1 \<noteq> premiseOf r2))"
proof -
  obtain n1 p1 np1 s1 where c1: "getPropPredName l1 st = ((n1, p1, np1), s1)"
    by (cases "getPropPredName l1 st") auto
  obtain n2 p2 np2 s3 where c2: "getPropPredName l2 st2 = ((n2, p2, np2), s3)"
    by (cases "getPropPredName l2 st2") auto
  have fold: "foldl (\<lambda>s l. snd (getPropPredName l s)) s1 ls = st2"
    using st2 r1 c1 by simp
  have n1_st2: "map_of (propPredNames st2) (functor' l2) = Some n1"
    using gppn_name [OF c1] gppn_fold_stable [OF fold] same by simp
  have names: "n2 = n1" using gppn_name_old [OF c2 n1_st2] by simp
  have fresh: "map_of (propPredNames st) (functor' l1) = None \<Longrightarrow>
      n1 = bddNewVar st \<and> bddNewVar s1 = bddNewVar st + 1"
    using gppn_name_fresh [OF c1] by simp
  have prem: "literals (clauses s3 ! p1) = [l1]
       \<and> prop' (clauses s3 ! p1) = getAtomic n1 (isNegative l1)
       \<and> literals (clauses s3 ! p2) = [l2]
       \<and> prop' (clauses s3 ! p2) = getAtomic n1 (isNegative l2)
       \<and> (isPositive l1 \<and> isNegative l2 \<longrightarrow> p1 \<noteq> p2)"
    if ok: "splitterOK st" and a1: "arity l1 = 0" and a2: "arity l2 = 0"
      and als: "list_all (\<lambda>l. arity l = 0) ls"
  proof -
    have ok1: "splitterOK s1" using gppn_OK [OF ok a1 c1] .
    have ok2: "splitterOK st2" using gppn_fold_OK [OF ok1 als] fold by simp
    have ok3: "splitterOK s3" using gppn_OK [OF ok2 a2 c2] .
    have m1: "(if polarity l1 then map_of (propPredPosNamePremises s3) (functor' l1)
               else map_of (propPredNegNamePremises s3) (functor' l1)) = Some p1"
      using gppn_premise_map [OF c1] gppn_fold_stable [OF fold, of "functor' l1" _ p1]
        gppn_premise_stable [OF c2, of "functor' l1" p1]
      by (auto simp: isPositive_def split: if_splits)
    have P1: "premiseOK s3 (polarity l1) (functor' l1, p1)"
      using premiseOK_lookup [OF ok3 m1] .
    have P2: "premiseOK s3 (polarity l2) (functor' l2, p2)"
      using gppn_premise_OK [OF ok2 a2 c2] .
    have n3: "map_of (propPredNames s3) (functor' l2) = Some n1"
      using gppn_name [OF c2] names by simp
    show ?thesis
      using P1 P2 n3 same literal_arity0 [OF a1] literal_arity0 [OF a2]
      by (auto simp: premiseOK_def isNegative_def isPositive_def)
  qed
  show ?thesis
    using names fresh prem by (simp add: r1 r2 c1 c2)
qed


theorem propPredName_shared_by_polarities_witness:
  "functor' \<lparr>functor' = 5, polarity = True, args = []\<rparr>
     = functor' \<lparr>functor' = 5, polarity = False, args = []\<rparr>
   \<and> splitterOK emptySplitter
   \<and> map_of (propPredNames emptySplitter) (functor' \<lparr>functor' = 5, polarity = True, args = []\<rparr>) = None
   \<and> nameOf (getPropPredName \<lparr>functor' = 5, polarity = True, args = []\<rparr> emptySplitter) = 1
   \<and> nameOf (getPropPredName \<lparr>functor' = 5, polarity = False, args = []\<rparr>
        (foldl (\<lambda>s l. snd (getPropPredName l s))
           (snd (getPropPredName \<lparr>functor' = 5, polarity = True, args = []\<rparr> emptySplitter))
           [\<lparr>functor' = 6, polarity = True, args = []\<rparr>])) = 1
   \<and> premiseOf (getPropPredName \<lparr>functor' = 5, polarity = True, args = []\<rparr> emptySplitter)
       \<noteq> premiseOf (getPropPredName \<lparr>functor' = 5, polarity = False, args = []\<rparr>
        (foldl (\<lambda>s l. snd (getPropPredName l s))
           (snd (getPropPredName \<lparr>functor' = 5, polarity = True, args = []\<rparr> emptySplitter))
           [\<lparr>functor' = 6, polarity = True, args = []\<rparr>]))"
proof -
  have hyps: "functor' \<lparr>functor' = 5, polarity = True, args = []\<rparr>
       = functor' \<lparr>functor' = 5, polarity = False, args = []\<rparr>"
    "splitterOK emptySplitter"
    "arity \<lparr>functor' = 5, polarity = True, args = []\<rparr> = 0"
    "arity \<lparr>functor' = 5, polarity = False, args = []\<rparr> = 0"
    "list_all (\<lambda>l. arity l = 0) [\<lparr>functor' = 6, polarity = True, args = []\<rparr>]"
    "isPositive \<lparr>functor' = 5, polarity = True, args = []\<rparr>"
    "isNegative \<lparr>functor' = 5, polarity = False, args = []\<rparr>"
    "map_of (propPredNames emptySplitter) (functor' \<lparr>functor' = 5, polarity = True, args = []\<rparr>) = None"
    "bddNewVar emptySplitter = 1"
    by (simp_all add: splitterOK_def emptySplitter_def arity_def isPositive_def isNegative_def)
  show ?thesis
    using propPredName_shared_by_polarities
      [OF hyps(1) refl refl refl, of emptySplitter "[\<lparr>functor' = 6, polarity = True, args = []\<rparr>]"]
      hyps
    by simp
qed


section \<open>The no-split path for propositional unit clauses\<close>

lemma namePropUnit_eq:
  assumes valid: "cl < length (clauses st)"
    and unit: "literals (clauses st ! cl) = [lit]"
    and r: "r = getPropPredName lit st"
  shows "namePropUnit cl st =
     (length (clauses (snd r)),
      (snd r)\<lparr>clauses := clauses (snd r) @
                [\<lparr>literals = [], inputType = inputType (clauses st ! cl),
                  inference = Inference2 SPLITTING cl (premiseOf r),
                  prop' = getAtomic (nameOf r) (isPositive lit), splits = []\<rparr>],
              inferenceStore := inferenceStore (snd r) @ [NonPropInference (length (clauses (snd r)))]\<rparr>)"
proof -
  obtain n p np s where c: "getPropPredName lit st = ((n, p, np), s)"
    by (cases "getPropPredName lit st") auto
  have same: "clauses s ! cl = clauses st ! cl"
    using gppn_frame [OF c] valid by simp
  show ?thesis
    by (simp add: namePropUnit_def unit r c same allocClause_def setProp_def record'_def
        newClause_def Let_def)
qed

text \<open>
  C4: for a clause that consists of exactly one literal \<open>lit\<close> of arity 0, \<open>doSplitting\<close>
  takes the no-split path, which passes \<open>lit\<close> through \<open>getPropPredName\<close> (allocating
  the variable if the predicate has none) and continues, before anything is inserted into
  the variant index, with a new clause without literals whose propositional part is
  \<open>getAtomic n (isPositive lit)\<close>, whose input type is that of the original clause and
  whose inference is SPLITTING from the original clause and the naming premise; the new
  clause is recorded in the inference store. In a well-formed state the naming premise
  is \<open>{lit}\<close> with the part \<open>getAtomic n (isNegative lit)\<close>.
\<close>

theorem propositional_unit_named:
  assumes valid: "cl < length (clauses st)"
    and unit: "literals (clauses st ! cl) = [lit]"
    and ar: "arity lit = 0"
    and r: "r = getPropPredName lit st"
    and newCl: "newCl = length (clauses (snd r))"
    and st': "st' = (snd r)\<lparr>clauses := clauses (snd r) @
                [\<lparr>literals = [], inputType = inputType (clauses st ! cl),
                  inference = Inference2 SPLITTING cl (premiseOf r),
                  prop' = getAtomic (nameOf r) (isPositive lit), splits = []\<rparr>],
              inferenceStore := inferenceStore (snd r) @ [NonPropInference newCl]\<rparr>"
  shows "doSplitting cl st = handleNoSplit cl st
    \<and> handleNoSplit cl st = indexAndReport newCl st'
    \<and> map_of (propPredNames st') (functor' lit) = Some (nameOf r)
    \<and> (map_of (propPredNames st) (functor' lit) = None \<longrightarrow> nameOf r = bddNewVar st)
    \<and> variantIndex st' = variantIndex st
    \<and> (splitterOK st \<longrightarrow>
         literals (clauses st' ! premiseOf r) = [lit]
       \<and> prop' (clauses st' ! premiseOf r) = getAtomic (nameOf r) (isNegative lit))"
proof -
  obtain n p np s where c: "getPropPredName lit st = ((n, p, np), s)"
    by (cases "getPropPredName lit st") auto
  have split: "doSplitting cl st = handleNoSplit cl st"
    by (simp add: doSplitting_def unit)
  have nosplit: "handleNoSplit cl st = indexAndReport newCl st'"
    using namePropUnit_eq [OF valid unit r] ar
    by (simp add: handleNoSplit_def unit newCl st')
  have name: "map_of (propPredNames st') (functor' lit) = Some (nameOf r)"
    using gppn_name [OF c] by (simp add: st' r c)
  have fresh: "map_of (propPredNames st) (functor' lit) = None \<longrightarrow> nameOf r = bddNewVar st"
    using gppn_name_fresh [OF c] by (simp add: r c)
  have idx: "variantIndex st' = variantIndex st"
    using gppn_frame [OF c] by (simp add: st' r c)
  have prem: "literals (clauses st' ! premiseOf r) = [lit]
       \<and> prop' (clauses st' ! premiseOf r) = getAtomic (nameOf r) (isNegative lit)"
    if ok: "splitterOK st"
  proof -
    have P: "premiseOK s (polarity lit) (functor' lit, p)"
      using gppn_premise_OK [OF ok ar c] .
    then have "p < length (clauses s)" by (simp add: premiseOK_def)
    then have "clauses st' ! premiseOf r = clauses s ! p"
      by (simp add: st' r c nth_append)
    then show ?thesis
      using P gppn_name [OF c] literal_arity0 [OF ar]
      by (auto simp: premiseOK_def isNegative_def r c)
  qed
  show ?thesis using split nosplit name fresh idx prem by blast
qed

theorem propositional_unit_named_witness:
  "(0::nat) < length (clauses (emptySplitter\<lparr>clauses :=
       [newClause [\<lparr>functor' = 5, polarity = False, args = []\<rparr>] CONJECTURE (Inference0 INPUT)]\<rparr>))
   \<and> splitterOK (emptySplitter\<lparr>clauses :=
       [newClause [\<lparr>functor' = 5, polarity = False, args = []\<rparr>] CONJECTURE (Inference0 INPUT)]\<rparr>)
   \<and> arity \<lparr>functor' = 5, polarity = False, args = []\<rparr> = 0
   \<and> fst (doSplitting 0 (emptySplitter\<lparr>clauses :=
       [newClause [\<lparr>functor' = 5, polarity = False, args = []\<rparr>] CONJECTURE (Inference0 INPUT)]\<rparr>))
       = ([2], [])
   \<and> clauses (snd (doSplitting 0 (emptySplitter\<lparr>clauses :=
       [newClause [\<lparr>functor' = 5, polarity = False, args = []\<rparr>] CONJECTURE (Inference0 INPUT)]\<rparr>))) ! 2
       = \<lparr>literals = [], inputType = CONJECTURE, inference = Inference2 SPLITTING 0 1,
          prop' = getAtomic 1 False, splits = []\<rparr>"
proof -
  let ?lit = "\<lparr>functor' = 5, polarity = False, args = []\<rparr>"
  let ?st = "emptySplitter\<lparr>clauses := [newClause [?lit] CONJECTURE (Inference0 INPUT)]\<rparr>"
  have hyps: "0 < length (clauses ?st)" "literals (clauses ?st ! 0) = [?lit]" "arity ?lit = 0"
    "splitterOK ?st"
    by (simp_all add: emptySplitter_def newClause_def arity_def splitterOK_def)
  have call: "getPropPredName ?lit ?st =
      ((1, 1, False),
       ?st\<lparr>clauses := clauses ?st @ [\<lparr>literals = [?lit], inputType = AXIOM,
               inference = Inference0 CLAUSE_NAMING, prop' = getAtomic 1 True, splits = []\<rparr>],
            bddNewVar := 2, inferenceStore := [NonPropInference 1],
            propPredNames := [(5, 1)], propPredNegNamePremises := [(5, 1)]\<rparr>)"
    by (simp add: gppn_defs emptySplitter_def newClause_def isPositive_def isNegative_def)
  note inst = propositional_unit_named [OF hyps(1) hyps(2) hyps(3) refl refl refl, unfolded call]
  show ?thesis
    using inst hyps
    by (simp add: indexAndReport_def insertIntoIndex_def retrieveVariants_def
        emptySplitter_def newClause_def isPositive_def)
qed


section \<open>Discarding a clause whose propositional part is true\<close>

lemma quiet_refl: "quiet st st"
  by (auto simp: quiet_def intro: exI [of _ "[]"])

lemma quiet_trans: "quiet a b \<Longrightarrow> quiet b c \<Longrightarrow> quiet a c"
proof -
  assume ab: "quiet a b" and bc: "quiet b c"
  from ab obtain ps where ps: "inferenceStore b = inferenceStore a @ map NonPropInference ps"
    by (auto simp: quiet_def)
  from bc obtain qs where qs: "inferenceStore c = inferenceStore b @ map NonPropInference qs"
    by (auto simp: quiet_def)
  have store: "inferenceStore c = inferenceStore a @ map NonPropInference (ps @ qs)"
    using ps qs by simp
  have tb: "take (length (clauses a)) (clauses b) = clauses a"
    and tc: "take (length (clauses b)) (clauses c) = clauses b"
    using ab bc by (auto simp: quiet_def)
  have le: "length (clauses a) \<le> length (clauses b)"
    using tb by (metis length_take min.cobounded1 min.commute)
  have "take (length (clauses a)) (clauses c)
          = take (length (clauses a)) (take (length (clauses b)) (clauses c))"
    using le by (simp add: min_def)
  then have "take (length (clauses a)) (clauses c) = clauses a"
    using tb tc by simp
  moreover have "clauseNames c = clauseNames a" using ab bc by (simp add: quiet_def)
  ultimately show ?thesis unfolding quiet_def using store by blast
qed

lemma quiet_nth:
  "quiet st st' \<Longrightarrow> p < length (clauses st) \<Longrightarrow> clauses st' ! p = clauses st ! p"
  by (metis nth_take quiet_def)

lemma gppn_quiet: "getPropPredName lit st = (r, st') \<Longrightarrow> quiet st st'"
  apply (auto simp: gppn_defs quiet_def split: option.splits if_splits)
  apply (rule exI [of _ "[length (clauses st)]"], simp)+
  done


lemma propComponentStep_quiet: "quiet (sp L) (sp (propComponentStep cl L cmp))"
proof (cases cmp)
  case Nil
  then show ?thesis by (simp add: propComponentStep_def quiet_refl)
next
  case (Cons i rest)
  show ?thesis
  proof (cases "rest = [] \<and> arity (literals (clauses (sp L) ! cl) ! i) = 0")
    case False
    then show ?thesis using Cons
      by (cases rest) (auto simp: propComponentStep_def quiet_refl Let_def)
  next
    case True
    obtain r s where c: "getPropPredName (literals (clauses (sp L) ! cl) ! i) (sp L) = (r, s)"
      by (cases "getPropPredName (literals (clauses (sp L) ! cl) ! i) (sp L)")
    obtain n p np where r: "r = (n, p, np)" by (cases r)
    show ?thesis using True Cons gppn_quiet [OF c]
      by (simp add: propComponentStep_def Let_def c r)
  qed
qed

lemma propComponents_quiet: "quiet (sp L) (sp (foldl (propComponentStep cl) L comps))"
proof (induction comps arbitrary: L)
  case Nil
  show ?case by (simp add: quiet_refl)
next
  case (Cons c comps)
  show ?case
    using quiet_trans [OF propComponentStep_quiet [of L cl c]
        Cons.IH [of "propComponentStep cl L c"]]
    by simp
qed

lemma startSplitting_quiet: "quiet st (sp (startSplitting cl comps st))"
  by (auto simp: startSplitting_def quiet_def intro: exI [of _ "[]"])

lemma componentStep_Inl:
  "componentStep cl L cmp = Inl s \<longleftrightarrow>
     \<not> (length cmp = 1 \<and> arity (last (map (\<lambda>i. literals (clauses (sp L) ! cl) ! i) cmp)) = 0)
     \<and> (\<exists>c rest n.
           retrieveVariants (sp L) (map (\<lambda>i. literals (clauses (sp L) ! cl) ! i) cmp) = c # rest
         \<and> map_of (clauseNames (sp L)) c = Some n
         \<and> \<not> (remainingComps L - 1 = 0 \<and> newComponentStack L = []
               \<and> unnamedComponentStack L = [])
         \<and> isTrue (disjunction (newMasterProp L) (getAtomic n True)))
     \<and> s = sp L"
  by (auto simp: componentStep_def Let_def allocClause_def split: list.splits option.splits)

lemma componentStep_quiet:
  "componentStep cl L cmp = Inr L' \<Longrightarrow> quiet (sp L) (sp L')"
  apply (auto simp: componentStep_def Let_def allocClause_def setProp_def record'_def quiet_refl
      split: list.splits option.splits if_splits)
  apply (auto simp: quiet_def intro: exI [of _ "[length (clauses (sp L))]"])
  done

lemma componentLoop_Inl_quiet:
  "componentLoop cl L comps = Inl s \<Longrightarrow> quiet (sp L) s"
proof (induction comps arbitrary: L)
  case Nil
  then show ?case by simp
next
  case (Cons c comps)
  show ?case
  proof (cases "componentStep cl L c")
    case (Inl s')
    then have "s' = s" using Cons.prems by simp
    then show ?thesis using Inl componentStep_Inl [of cl L c s] by (simp add: quiet_refl)
  next
    case (Inr L')
    then have "componentLoop cl L' comps = Inl s" using Cons.prems by simp
    then show ?thesis
      using quiet_trans [OF componentStep_quiet [OF Inr] Cons.IH] by simp
  qed
qed

lemma componentLoop_append:
  "componentLoop cl L pre = Inr L' \<Longrightarrow>
     componentLoop cl L (pre @ rest) = componentLoop cl L' rest"
  by (induction pre arbitrary: L) (auto split: sum.splits)


text \<open>
  C3: in \<open>doSplitting\<close> on a clause with several components, let the second loop have
  reached a component that is not a propositional unit, has a variant \<open>c\<close> in the index,
  \<open>c\<close> is named \<open>n\<close>, and \<open>c\<close> is not taken as the master (it is not the last remaining
  component, or a new or unnamed component was seen). If the master propositional part
  disjoined with \<open>getAtomic n True\<close> is the constant true, \<open>doSplitting\<close> returns at once
  with no new and no modified components. Up to then clauses were only allocated: every
  clause that existed before has its propositional part (and everything else) unchanged,
  no clause was named, and the inference store received only records of new clauses, no
  splitting event.
\<close>

theorem true_propositional_part_discards:
  assumes multi: "1 < length (literals (clauses st ! cl))"
    and comps: "comps = clauseComponents (literals (clauses st ! cl))"
    and several: "length comps \<noteq> 1"
    and at: "comps = pre @ cmp # post"
    and before: "componentLoop cl (foldl (propComponentStep cl) (startSplitting cl comps st) comps) pre
                   = Inr L"
    and lits: "lits = map (\<lambda>i. literals (clauses (sp L) ! cl) ! i) cmp"
    and notprop: "\<not> (length lits = 1 \<and> arity (last lits) = 0)"
    and variant: "retrieveVariants (sp L) lits = c # rest"
    and named: "map_of (clauseNames (sp L)) c = Some n"
    and notmaster: "\<not> (remainingComps L - 1 = 0 \<and> newComponentStack L = []
                        \<and> unnamedComponentStack L = [])"
    and true: "isTrue (disjunction (newMasterProp L) (getAtomic n True))"
  shows "doSplitting cl st = (([], []), sp L)
    \<and> (\<forall>p < length (clauses st). clauses (sp L) ! p = clauses st ! p)
    \<and> clauseNames (sp L) = clauseNames st
    \<and> (\<exists>ps. inferenceStore (sp L) = inferenceStore st @ map NonPropInference ps)"
proof -
  let ?L1 = "foldl (propComponentStep cl) (startSplitting cl comps st) comps"
  have step: "componentStep cl L cmp = Inl (sp L)"
    using notprop variant named notmaster true
    by (subst componentStep_Inl) (auto simp: lits)
  have loop: "componentLoop cl ?L1 comps = Inl (sp L)"
    using componentLoop_append [OF before, of "cmp # post"] step by (simp add: at)
  have result: "doSplitting cl st = (([], []), sp L)"
    using multi several loop by (simp add: doSplitting_def comps [symmetric] Let_def)
  have q: "quiet st (sp L)"
    using quiet_trans [OF startSplitting_quiet
        quiet_trans [OF propComponents_quiet componentLoop_Inl_quiet [OF loop]]] .
  have "\<forall>p < length (clauses st). clauses (sp L) ! p = clauses st ! p"
    using quiet_nth [OF q] by blast
  then show ?thesis using result q by (simp add: quiet_def)
qed

theorem true_propositional_part_discards_witness:
  "(let q1 = \<lparr>functor' = 6, polarity = True, args = [Var 1]\<rparr>;
        r2 = \<lparr>functor' = 7, polarity = True, args = [Var 2]\<rparr>;
        st = emptySplitter\<lparr>
               clauses :=
                 [(newClause [\<lparr>functor' = 6, polarity = True, args = [Var 0]\<rparr>] AXIOM
                     (Inference0 TAUTOLOGY_INTRODUCTION))\<lparr>prop' := getAtomic 1 False\<rparr>,
                  (newClause [q1, r2] AXIOM (Inference0 RESOLUTION))\<lparr>prop' := getAtomic 1 False\<rparr>],
               bddNewVar := 2, variantIndex := [0], clauseNames := [(0, 1)]\<rparr>
    in 1 < length (literals (clauses st ! 1))
     \<and> clauseComponents (literals (clauses st ! 1)) = [] @ [0] # [[1]]
     \<and> retrieveVariants st [q1] = [0]
     \<and> map_of (clauseNames st) 0 = Some 1
     \<and> isTrue (disjunction (prop' (clauses st ! 1)) (getAtomic 1 True))
     \<and> doSplitting 1 st = (([], []), st\<lparr>splittedClauses := 1, splittedComponents := 2\<rparr>))"
proof -
  let ?q1 = "\<lparr>functor' = 6, polarity = True, args = [Var 1]\<rparr>"
  let ?r2 = "\<lparr>functor' = 7, polarity = True, args = [Var 2]\<rparr>"
  let ?st = "emptySplitter\<lparr>
               clauses :=
                 [(newClause [\<lparr>functor' = 6, polarity = True, args = [Var 0]\<rparr>] AXIOM
                     (Inference0 TAUTOLOGY_INTRODUCTION))\<lparr>prop' := getAtomic 1 False\<rparr>,
                  (newClause [?q1, ?r2] AXIOM (Inference0 RESOLUTION))\<lparr>prop' := getAtomic 1 False\<rparr>],
               bddNewVar := 2, variantIndex := [0], clauseNames := [(0, 1)]\<rparr>"
  let ?comps = "clauseComponents (literals (clauses ?st ! 1))"
  let ?L = "foldl (propComponentStep 1) (startSplitting 1 ?comps ?st) ?comps"
  have multi: "1 < length (literals (clauses ?st ! 1))"
    by code_simp
  have comps: "?comps = [] @ [0] # [[1]]"
    by code_simp
  have several: "length ?comps \<noteq> 1"
    by code_simp
  have sp: "sp ?L = ?st\<lparr>splittedClauses := 1, splittedComponents := 2\<rparr>"
    by code_simp
  have before: "componentLoop 1 ?L [] = Inr ?L" by simp
  have lits: "map (\<lambda>i. literals (clauses (sp ?L) ! 1) ! i) [0] = [?q1]"
    by code_simp
  have notprop: "\<not> (length [?q1] = 1 \<and> arity (last [?q1]) = 0)"
    by code_simp
  have var0: "retrieveVariants ?st [?q1] = [0]"
    by code_simp
  have variant: "retrieveVariants (sp ?L) [?q1] = 0 # []"
    by code_simp
  have named: "map_of (clauseNames (sp ?L)) 0 = Some 1"
    by code_simp
  have named0: "map_of (clauseNames ?st) 0 = Some 1"
    by code_simp
  have notmaster: "\<not> (remainingComps ?L - 1 = 0 \<and> newComponentStack ?L = []
                        \<and> unnamedComponentStack ?L = [])"
    by code_simp
  have true: "isTrue (disjunction (newMasterProp ?L) (getAtomic 1 True))"
    by code_simp
  have true0: "isTrue (disjunction (prop' (clauses ?st ! 1)) (getAtomic 1 True))"
    by code_simp
  note inst = true_propositional_part_discards
    [OF multi refl several comps before lits [symmetric] notprop variant named notmaster true]
  have "doSplitting 1 ?st = (([], []), ?st\<lparr>splittedClauses := 1, splittedComponents := 2\<rparr>)"
    using inst by (simp only: sp)
  then show ?thesis
    unfolding Let_def using multi comps var0 named0 true0
    by blast
qed


section \<open>Naming the propositional components of a split clause\<close>

lemma indexPhase_refl:
  "list_all (\<lambda>p. p < length (clauses st)) (variantIndex st) \<Longrightarrow> indexPhase st st"
  by (auto simp: indexPhase_def list_all_iff)

lemma indexPhase_trans:
  assumes ab: "indexPhase a b" and bc: "indexPhase b c"
  shows "indexPhase a c"
proof -
  have old: "clauses c ! q = clauses a ! q"
    if q: "q < length (clauses a)" and nq: "q \<notin> set (variantIndex c)" for q
  proof -
    have "q \<notin> set (variantIndex b)" using nq bc by (auto simp: indexPhase_def)
    then have 1: "clauses b ! q = clauses a ! q" using ab q by (simp add: indexPhase_def)
    have "q < length (clauses b)" using ab q by (simp add: indexPhase_def)
    then have "clauses c ! q = clauses b ! q" using bc nq by (simp add: indexPhase_def)
    then show ?thesis using 1 by simp
  qed
  have idx: "q < length (clauses c) \<and> (q \<in> set (variantIndex a) \<or> length (clauses a) \<le> q)"
    if q: "q \<in> set (variantIndex c)" for q
  proof -
    from bc q have qc: "q < length (clauses c)"
      and d: "q \<in> set (variantIndex b) \<or> length (clauses b) \<le> q"
      by (auto simp: indexPhase_def)
    from d show ?thesis
    proof
      assume "q \<in> set (variantIndex b)"
      then show ?thesis using ab qc by (auto simp: indexPhase_def)
    next
      assume "length (clauses b) \<le> q"
      moreover have "length (clauses a) \<le> length (clauses b)" using ab by (simp add: indexPhase_def)
      ultimately show ?thesis using qc by simp
    qed
  qed
  show ?thesis
    unfolding indexPhase_def
  proof (intro conjI)
    show "\<forall>q<length (clauses a). q \<notin> set (variantIndex c) \<longrightarrow> clauses c ! q = clauses a ! q"
      using old by blast
    show "\<forall>q\<in>set (variantIndex c).
       q < length (clauses c) \<and> (q \<in> set (variantIndex a) \<or> length (clauses a) \<le> q)"
      using idx by blast
  qed (use ab bc in \<open>auto simp: indexPhase_def\<close>)
qed

lemma premiseOK_indexPhase:
  assumes ok: "splitterOK st" and ph: "indexPhase st st'" and p: "premiseOK st pol e"
  shows "premiseOK st' pol e"
proof -
  have lt: "snd e < length (clauses st)" and ni: "snd e \<notin> set (variantIndex st)"
    using p by (simp_all add: premiseOK_def)
  have ni': "snd e \<notin> set (variantIndex st')"
  proof
    assume "snd e \<in> set (variantIndex st')"
    then have "snd e \<in> set (variantIndex st) \<or> length (clauses st) \<le> snd e"
      using ph by (simp add: indexPhase_def)
    then show False using lt ni by auto
  qed
  then have same: "clauses st' ! snd e = clauses st ! snd e"
    using ph lt by (simp add: indexPhase_def)
  show ?thesis
    using p ph same ni' lt unfolding premiseOK_def indexPhase_def
    by (auto split: option.splits)
qed

lemma splitterOK_indexPhase:
  assumes ok: "splitterOK st" and ph: "indexPhase st st'"
  shows "splitterOK st'"
  using ok ph premiseOK_indexPhase [OF ok ph]
  by (auto simp: splitterOK_def list_all_iff indexPhase_def)


lemma retrieve_in_index:
  "retrieveVariants st ls = c # rest \<Longrightarrow> c \<in> set (variantIndex st)"
proof -
  assume "retrieveVariants st ls = c # rest"
  then have "c \<in> set (retrieveVariants st ls)" by simp
  then show ?thesis by (simp add: retrieveVariants_def)
qed

lemma componentStep_phase:
  assumes idx: "list_all (\<lambda>p. p < length (clauses (sp L))) (variantIndex (sp L))"
    and stacks: "stacksInIndex L"
    and step: "componentStep cl L cmp = Inr L'"
  shows "indexPhase (sp L) (sp L') \<and> stacksInIndex L'
    \<and> set (masterPremises L) \<subseteq> set (masterPremises L')"
proof (cases "length cmp = 1 \<and> arity (last (map (\<lambda>i. literals (clauses (sp L) ! cl) ! i) cmp)) = 0")
  case True
  then have "L' = L" using step by (auto simp: componentStep_def Let_def)
  then show ?thesis using stacks indexPhase_refl [OF idx] by simp
next
  case False
  let ?lits = "map (\<lambda>i. literals (clauses (sp L) ! cl) ! i) cmp"
  show ?thesis
  proof (cases "retrieveVariants (sp L) ?lits")
    case (Cons c rest)
    have cin: "c \<in> set (variantIndex (sp L))" using retrieve_in_index [OF Cons] .
    have same: "sp L' = sp L"
      using step False Cons
      by (auto simp: componentStep_def Let_def split: option.splits if_splits)
    have st: "stacksInIndex L'"
      using step False Cons stacks cin
      by (auto simp: componentStep_def Let_def stacksInIndex_def split: option.splits if_splits)
    have mp: "set (masterPremises L) \<subseteq> set (masterPremises L')"
      using step False Cons
      by (auto simp: componentStep_def Let_def split: option.splits if_splits)
    show ?thesis using same st mp indexPhase_refl [OF idx] by simp
  next
    case Nil
    let ?n = "length (clauses (sp L))"
    have L': "L' = L\<lparr>remainingComps := remainingComps L - 1,
        sp := (sp L)\<lparr>uniqueComponents := uniqueComponents (sp L) + 1,
                 clauses := clauses (sp L) @
                   [\<lparr>literals = rev ?lits, inputType = inputType (clauses (sp L) ! cl),
                     inference = Inference0 TAUTOLOGY_INTRODUCTION, prop' = getTrue,
                     splits = []\<rparr>],
                 variantIndex := variantIndex (sp L) @ [?n],
                 inferenceStore := inferenceStore (sp L) @ [NonPropInference ?n]\<rparr>,
        newComponentStack := ?n # newComponentStack L\<rparr>"
      using step False Nil
      by (auto simp: componentStep_def Let_def allocClause_def setProp_def record'_def
          newClause_def)
    have ph: "indexPhase (sp L) (sp L')"
      using idx by (auto simp: L' indexPhase_def list_all_iff nth_append)
    have st: "stacksInIndex L'"
      using stacks by (auto simp: L' stacksInIndex_def)
    show ?thesis using ph st by (simp add: L')
  qed
qed

lemma nameComponentStep_phase:
  assumes idx: "list_all (\<lambda>p. p < length (clauses (sp L))) (variantIndex (sp L))"
    and cin: "cmp \<in> set (variantIndex (sp L))"
  shows "indexPhase (sp L) (sp (nameComponentStep master L cmp))
    \<and> newComponentStack (nameComponentStep master L cmp) = newComponentStack L
    \<and> unnamedComponentStack (nameComponentStep master L cmp) = unnamedComponentStack L
    \<and> set (masterPremises L) \<subseteq> set (masterPremises (nameComponentStep master L cmp))"
  using idx cin
  by (auto simp: nameComponentStep_def Let_def getNewVar_def setProp_def record'_def
      indexPhase_def list_all_iff nth_list_update)


lemma indexPhase_idx:
  "indexPhase a b \<Longrightarrow> list_all (\<lambda>p. p < length (clauses b)) (variantIndex b)"
  by (auto simp: indexPhase_def list_all_iff)

lemma componentStep_Inl_state:
  "componentStep cl L cmp = Inl s \<Longrightarrow> s = sp L"
  by (auto simp: componentStep_def Let_def allocClause_def split: list.splits option.splits if_splits)

lemma componentLoop_phase:
  assumes idx: "list_all (\<lambda>p. p < length (clauses (sp L))) (variantIndex (sp L))"
    and stacks: "stacksInIndex L"
  shows "(componentLoop cl L comps = Inr L' \<longrightarrow>
            indexPhase (sp L) (sp L') \<and> stacksInIndex L'
            \<and> set (masterPremises L) \<subseteq> set (masterPremises L'))
       \<and> (componentLoop cl L comps = Inl s \<longrightarrow> indexPhase (sp L) s)"
  using idx stacks
proof (induction comps arbitrary: L)
  case Nil
  then show ?case using indexPhase_refl by auto
next
  case (Cons c comps)
  show ?case
  proof (cases "componentStep cl L c")
    case (Inl s')
    then have "s' = sp L" by (rule componentStep_Inl_state)
    then show ?thesis using Inl indexPhase_refl [OF Cons.prems(1)] by auto
  next
    case (Inr L1)
    note S = componentStep_phase [OF Cons.prems(1) Cons.prems(2) Inr]
    have idx1: "list_all (\<lambda>p. p < length (clauses (sp L1))) (variantIndex (sp L1))"
      using S indexPhase_idx by blast
    have st1: "stacksInIndex L1" using S by blast
    from Cons.IH [OF idx1 st1] S show ?thesis
      using Inr indexPhase_trans [of "sp L" "sp L1"] by auto
  qed
qed

lemma chooseMaster_phase:
  assumes idx: "list_all (\<lambda>p. p < length (clauses (sp L))) (variantIndex (sp L))"
    and stacks: "stacksInIndex L"
    and choose: "chooseMaster L = ((m, mn), L')"
  shows "indexPhase (sp L) (sp L') \<and> m \<in> set (variantIndex (sp L'))
    \<and> set (newComponentStack L') \<union> set (unnamedComponentStack L') \<subseteq> set (variantIndex (sp L'))
    \<and> masterPremises L' = masterPremises L"
proof (cases "newComponentStack L \<noteq> [] \<or> unnamedComponentStack L \<noteq> [] \<or> masterComp L \<noteq> None")
  case True
  note refl = indexPhase_refl [OF idx]
  show ?thesis
  proof (cases "newComponentStack L")
    case (Cons x xs)
    then show ?thesis using choose stacks refl
      by (auto simp: chooseMaster_def stacksInIndex_def)
  next
    case Nil
    show ?thesis
    proof (cases "unnamedComponentStack L")
      case (Cons x xs)
      then show ?thesis using choose stacks refl Nil
        by (auto simp: chooseMaster_def stacksInIndex_def)
    next
      case Nil2: Nil
      then obtain m' where "masterComp L = Some m'" using True Nil by auto
      then show ?thesis using choose stacks refl Nil Nil2
        by (auto simp: chooseMaster_def stacksInIndex_def)
    qed
  qed
next
  case False
  let ?n = "length (clauses (sp L))"
  let ?e = "\<lparr>literals = [], inputType = AXIOM, inference = Inference0 TAUTOLOGY_INTRODUCTION,
             prop' = getTrue, splits = []\<rparr>"
  let ?st2 = "(sp L)\<lparr>clauses := clauses (sp L) @ [?e]\<rparr>"
  obtain r st3 where ins: "insertIntoIndex ?n ?st2 = (r, st3)"
    by (cases "insertIntoIndex ?n ?st2")
  have res: "m = fst r \<and> L' = L\<lparr>sp := st3\<rparr>"
    using choose False ins
    by (auto simp: chooseMaster_def Let_def allocClause_def setProp_def newClause_def
        split: prod.splits)
  have ph: "indexPhase (sp L) st3 \<and> fst r \<in> set (variantIndex st3)"
  proof (cases "retrieveVariants ?st2 (literals (clauses ?st2 ! ?n))")
    case Nil
    then have "st3 = ?st2\<lparr>uniqueComponents := uniqueComponents ?st2 + 1,
                 variantIndex := variantIndex ?st2 @ [?n]\<rparr>" and "fst r = ?n"
      using ins by (auto simp: insertIntoIndex_def)
    then show ?thesis using idx by (auto simp: indexPhase_def list_all_iff nth_append)
  next
    case (Cons c rest)
    have cin: "c \<in> set (variantIndex (sp L))" using retrieve_in_index [OF Cons] by simp
    then have clt: "c < ?n" using idx by (auto simp: list_all_iff)
    have "fst r = c" using ins Cons by (auto simp: insertIntoIndex_def Let_def split: if_splits)
    moreover have "indexPhase (sp L) st3"
      using ins Cons idx cin clt
      by (auto simp: insertIntoIndex_def Let_def setProp_def record'_def indexPhase_def
          list_all_iff nth_append nth_list_update less_Suc_eq split: if_splits)
    moreover have "variantIndex st3 = variantIndex (sp L)"
      using ins Cons
      by (auto simp: insertIntoIndex_def Let_def setProp_def record'_def split: if_splits)
    ultimately show ?thesis using cin by simp
  qed
  show ?thesis using res ph False by auto
qed

lemma nameComponents_phase:
  assumes idx: "list_all (\<lambda>p. p < length (clauses (sp L))) (variantIndex (sp L))"
    and sub: "set xs \<subseteq> set (variantIndex (sp L))"
  shows "indexPhase (sp L) (sp (foldl (nameComponentStep master) L xs))
    \<and> newComponentStack (foldl (nameComponentStep master) L xs) = newComponentStack L
    \<and> unnamedComponentStack (foldl (nameComponentStep master) L xs) = unnamedComponentStack L
    \<and> set (masterPremises L) \<subseteq> set (masterPremises (foldl (nameComponentStep master) L xs))"
  using idx sub
proof (induction xs arbitrary: L)
  case Nil
  then show ?case using indexPhase_refl by auto
next
  case (Cons x xs)
  have xin: "x \<in> set (variantIndex (sp L))" using Cons.prems(2) by simp
  note S = nameComponentStep_phase [OF Cons.prems(1) xin, of master]
  let ?L1 = "nameComponentStep master L x"
  have idx1: "list_all (\<lambda>p. p < length (clauses (sp ?L1))) (variantIndex (sp ?L1))"
    using S indexPhase_idx by blast
  have sub1: "set xs \<subseteq> set (variantIndex (sp ?L1))"
    using Cons.prems(2) S by (auto simp: indexPhase_def)
  from Cons.IH [OF idx1 sub1] S show ?case
    using indexPhase_trans [of "sp L" "sp ?L1"] by auto
qed


lemma finishSplitting_phase:
  assumes idx: "list_all (\<lambda>p. p < length (clauses (sp L0))) (variantIndex (sp L0))"
    and stacks: "stacksInIndex L0"
    and fin: "finishSplitting L0 = ((newC, modC), st')"
  shows "indexPhase (sp L0) st'
    \<and> set newC \<union> set modC \<subseteq> set (variantIndex st')
    \<and> (\<exists>rs m old new prems. inferenceStore st' = rs @ [SplittingRecord m old new prems]
          \<and> set (masterPremises L0) \<subseteq> set prems)"
proof -
  obtain m mn L1 where choose: "chooseMaster L0 = ((m, mn), L1)"
    by (cases "chooseMaster L0") auto
  note C = chooseMaster_phase [OF idx stacks choose]
  let ?xs = "newComponentStack L1 @ unnamedComponentStack L1"
  let ?L2 = "foldl (nameComponentStep m) L1 ?xs"
  have idx1: "list_all (\<lambda>p. p < length (clauses (sp L1))) (variantIndex (sp L1))"
    using C indexPhase_idx by blast
  have sub: "set ?xs \<subseteq> set (variantIndex (sp L1))" using C by auto
  note N = nameComponents_phase [OF idx1 sub, of m]
  have idx2: "list_all (\<lambda>p. p < length (clauses (sp ?L2))) (variantIndex (sp ?L2))"
    using N indexPhase_idx by blast
  have m2: "m \<in> set (variantIndex (sp ?L2))"
    using C N by (auto simp: indexPhase_def)
  let ?old = "prop' (clauses (sp ?L2) ! m)"
  let ?st1 = "setProp m (conjunction ?old (newMasterProp ?L2)) (sp ?L2)"
  let ?st2 = "record' (SplittingRecord m ?old (prop' (clauses ?st1 ! m))
                           (rev (masterPremises ?L2))) ?st1"
  have st': "st' = ?st2"
    using fin by (simp add: finishSplitting_def choose Let_def split: if_splits)
  have ph2: "indexPhase (sp ?L2) ?st2"
    using idx2 m2
    by (auto simp: setProp_def record'_def indexPhase_def list_all_iff nth_list_update)
  have ph: "indexPhase (sp L0) st'"
    using indexPhase_trans [OF indexPhase_trans [of "sp L0" "sp L1" "sp ?L2"] ph2] C N st'
    by blast
  have vi: "variantIndex st' = variantIndex (sp ?L2)"
    by (simp add: st' setProp_def record'_def)
  have stacks2: "set (newComponentStack ?L2) \<union> set (unnamedComponentStack ?L2)
                   \<subseteq> set (variantIndex (sp ?L2))"
    using C N by (auto simp: indexPhase_def)
  have outs: "set newC \<union> set modC \<subseteq> insert m (set (newComponentStack ?L2)
                  \<union> set (unnamedComponentStack ?L2))"
    using fin by (auto simp: finishSplitting_def choose Let_def split: if_splits)
  have out: "set newC \<union> set modC \<subseteq> set (variantIndex st')"
    using outs stacks2 m2 vi by auto
  have prem: "set (masterPremises L0) \<subseteq> set (rev (masterPremises ?L2))"
    using C N by auto
  have rec: "inferenceStore st' = inferenceStore ?st1 @
      [SplittingRecord m ?old (prop' (clauses ?st1 ! m)) (rev (masterPremises ?L2))]"
    by (simp add: st' record'_def)
  show ?thesis using ph out rec prem by blast
qed


lemma propComponentStep_unit:
  assumes "arity (literals (clauses (sp L) ! cl) ! i) = 0"
    and "r = getPropPredName (literals (clauses (sp L) ! cl) ! i) (sp L)"
  shows "propComponentStep cl L [i] =
     L\<lparr>sp := snd r,
       remainingComps := remainingComps L - 1,
       newMasterProp := disjunction (newMasterProp L)
          (getAtomic (nameOf r) (isPositive (literals (clauses (sp L) ! cl) ! i))),
       masterPremises := premiseOf r # masterPremises L\<rparr>"
  using assms by (simp add: propComponentStep_def Let_def split: prod.splits)

lemma propComponentStep_other:
  assumes "\<not> (\<exists>i. cmp = [i] \<and> arity (literals (clauses (sp L) ! cl) ! i) = 0)"
  shows "propComponentStep cl L cmp = L"
  using assms by (auto simp: propComponentStep_def Let_def split: list.splits)

lemma propComponentStep_facts:
  "(splitterOK (sp L) \<longrightarrow> splitterOK (sp (propComponentStep cl L cmp)))
   \<and> variantIndex (sp (propComponentStep cl L cmp)) = variantIndex (sp L)
   \<and> newComponentStack (propComponentStep cl L cmp) = newComponentStack L
   \<and> unnamedComponentStack (propComponentStep cl L cmp) = unnamedComponentStack L
   \<and> masterComp (propComponentStep cl L cmp) = masterComp L
   \<and> set (masterPremises L) \<subseteq> set (masterPremises (propComponentStep cl L cmp))
   \<and> (map_of (propPredNames (sp L)) pr = Some k \<longrightarrow>
        map_of (propPredNames (sp (propComponentStep cl L cmp))) pr = Some k)
   \<and> (map_of (propPredPosNamePremises (sp L)) pr = Some q \<longrightarrow>
        map_of (propPredPosNamePremises (sp (propComponentStep cl L cmp))) pr = Some q)
   \<and> (map_of (propPredNegNamePremises (sp L)) pr = Some q \<longrightarrow>
        map_of (propPredNegNamePremises (sp (propComponentStep cl L cmp))) pr = Some q)"
proof (cases "\<exists>i. cmp = [i] \<and> arity (literals (clauses (sp L) ! cl) ! i) = 0")
  case False
  then show ?thesis by (simp add: propComponentStep_other)
next
  case True
  then obtain i where cmp: "cmp = [i]" and ar: "arity (literals (clauses (sp L) ! cl) ! i) = 0"
    by blast
  let ?lit = "literals (clauses (sp L) ! cl) ! i"
  obtain n p np s where c: "getPropPredName ?lit (sp L) = ((n, p, np), s)"
    by (cases "getPropPredName ?lit (sp L)") auto
  have eq: "propComponentStep cl L cmp =
     L\<lparr>sp := s, remainingComps := remainingComps L - 1,
       newMasterProp := disjunction (newMasterProp L) (getAtomic n (isPositive ?lit)),
       masterPremises := p # masterPremises L\<rparr>"
    using propComponentStep_unit [OF ar refl] by (simp add: cmp c)
  show ?thesis
    using gppn_OK [OF _ ar c] gppn_frame [OF c] gppn_name_stable [OF c, of pr k]
      gppn_premise_stable [OF c, of pr q]
    by (auto simp: eq)
qed

lemma propComponents_facts:
  "(splitterOK (sp L) \<longrightarrow> splitterOK (sp (foldl (propComponentStep cl) L comps)))
   \<and> variantIndex (sp (foldl (propComponentStep cl) L comps)) = variantIndex (sp L)
   \<and> newComponentStack (foldl (propComponentStep cl) L comps) = newComponentStack L
   \<and> unnamedComponentStack (foldl (propComponentStep cl) L comps) = unnamedComponentStack L
   \<and> masterComp (foldl (propComponentStep cl) L comps) = masterComp L
   \<and> set (masterPremises L) \<subseteq> set (masterPremises (foldl (propComponentStep cl) L comps))
   \<and> (map_of (propPredNames (sp L)) pr = Some k \<longrightarrow>
        map_of (propPredNames (sp (foldl (propComponentStep cl) L comps))) pr = Some k)
   \<and> (map_of (propPredPosNamePremises (sp L)) pr = Some q \<longrightarrow>
        map_of (propPredPosNamePremises (sp (foldl (propComponentStep cl) L comps))) pr = Some q)
   \<and> (map_of (propPredNegNamePremises (sp L)) pr = Some q \<longrightarrow>
        map_of (propPredNegNamePremises (sp (foldl (propComponentStep cl) L comps))) pr = Some q)"
proof (induction comps arbitrary: L)
  case Nil
  show ?case by simp
next
  case (Cons c comps)
  note S = propComponentStep_facts [of L cl c pr k q]
  note IH = Cons.IH [of "propComponentStep cl L c"]
  show ?case
  proof (intro conjI)
    show "set (masterPremises L) \<subseteq> set (masterPremises (foldl (propComponentStep cl) L (c # comps)))"
      using S IH by auto
  qed (use S IH in simp_all)
qed

lemma propComponents_entry:
  assumes valid: "cl < length (clauses (sp L))"
    and mem: "[i] \<in> set comps"
    and ar: "arity (literals (clauses (sp L) ! cl) ! i) = 0"
    and lit: "lit = literals (clauses (sp L) ! cl) ! i"
    and L': "L' = foldl (propComponentStep cl) L comps"
  shows "\<exists>p n. (if isPositive lit then map_of (propPredPosNamePremises (sp L')) (functor' lit)
                else map_of (propPredNegNamePremises (sp L')) (functor' lit)) = Some p
          \<and> map_of (propPredNames (sp L')) (functor' lit) = Some n
          \<and> p \<in> set (masterPremises L')"
  using valid mem ar lit L'
proof (induction comps arbitrary: L)
  case Nil
  then show ?case by simp
next
  case (Cons c comps)
  let ?L1 = "propComponentStep cl L c"
  have L'1: "L' = foldl (propComponentStep cl) ?L1 comps" using Cons.prems by simp
  show ?case
  proof (cases "c = [i]")
    case True
    obtain n p np s where c0:
      "getPropPredName (literals (clauses (sp L) ! cl) ! i) (sp L) = ((n, p, np), s)"
      by (cases "getPropPredName (literals (clauses (sp L) ! cl) ! i) (sp L)") auto
    have c: "getPropPredName lit (sp L) = ((n, p, np), s)"
      using c0 Cons.prems(4) by simp
    have eq: "?L1 =
       L\<lparr>sp := s, remainingComps := remainingComps L - 1,
         newMasterProp := disjunction (newMasterProp L) (getAtomic n (isPositive lit)),
         masterPremises := p # masterPremises L\<rparr>"
      using propComponentStep_unit [OF Cons.prems(3) refl] Cons.prems(4) True by (simp add: c0)
    have e1: "(if isPositive lit then map_of (propPredPosNamePremises (sp ?L1)) (functor' lit)
                else map_of (propPredNegNamePremises (sp ?L1)) (functor' lit)) = Some p"
      using gppn_premise_map [OF c] by (auto simp: eq split: if_splits)
    have n1: "map_of (propPredNames (sp ?L1)) (functor' lit) = Some n"
      using gppn_name [OF c] by (simp add: eq)
    have p1: "p \<in> set (masterPremises ?L1)" by (simp add: eq)
    show ?thesis
      using propComponents_facts [of ?L1 cl comps "functor' lit" n p] e1 n1 p1 L'1
      by (auto split: if_splits)
  next
    case False
    then have mem': "[i] \<in> set comps" using Cons.prems(2) by simp
    have q: "quiet (sp L) (sp ?L1)" by (rule propComponentStep_quiet)
    have same: "clauses (sp ?L1) ! cl = clauses (sp L) ! cl"
      using quiet_nth [OF q Cons.prems(1)] .
    have valid': "cl < length (clauses (sp ?L1))"
      using q Cons.prems(1) by (metis quiet_def length_take min.absorb_iff2 nat_le_linear
          order_less_le_trans min.commute)
    show ?thesis
      using Cons.IH [OF valid' mem' _ _ L'1] Cons.prems(3) Cons.prems(4) same by simp
  qed
qed


lemma startSplitting_OK:
  "splitterOK st \<Longrightarrow> splitterOK (sp (startSplitting cl comps st))"
proof -
  have "premiseOK (sp (startSplitting cl comps st)) = premiseOK st"
    by (intro ext) (simp add: premiseOK_def startSplitting_def cong: option.case_cong)
  then show "splitterOK st \<Longrightarrow> splitterOK (sp (startSplitting cl comps st))"
    by (simp add: splitterOK_def) (simp add: startSplitting_def)
qed

lemma premise_facts:
  assumes ok: "splitterOK st'" and ar: "arity lit = 0"
    and e: "(if isPositive lit then map_of (propPredPosNamePremises st') (functor' lit)
             else map_of (propPredNegNamePremises st') (functor' lit)) = Some p"
    and n: "map_of (propPredNames st') (functor' lit) = Some n"
  shows "literals (clauses st' ! p) = [lit]
    \<and> prop' (clauses st' ! p) = getAtomic n (\<not> isPositive lit)
    \<and> NonPropInference p \<in> set (inferenceStore st')
    \<and> p \<notin> set (variantIndex st')"
proof -
  have "premiseOK st' (polarity lit) (functor' lit, p)"
    using premiseOK_lookup [OF ok, of "polarity lit" "functor' lit" p] e
    by (simp add: isPositive_def)
  then show ?thesis using n literal_arity0 [OF ar]
    by (auto simp: premiseOK_def isPositive_def)
qed

text \<open>
  C2: let \<open>doSplitting\<close> run on an allocated clause with several components in a
  well-formed state, and let \<open>[i]\<close> be a component whose literal \<open>lit\<close> has arity 0.
  The first loop handles it with \<open>getPropPredName\<close>: the name \<open>n\<close> is the one of the
  predicate of \<open>lit\<close>, a new BDD variable if the predicate had none; the master
  propositional part becomes its disjunction with \<open>getAtomic n (isPositive lit)\<close>, and
  the naming premise is pushed onto the master premises. In the state \<open>doSplitting\<close>
  returns, the premise of \<open>lit\<close> is the clause \<open>{lit}\<close> with the propositional part
  \<open>getAtomic n (\<not> isPositive lit)\<close>, it is recorded in the inference store, and it is
  neither among the new nor among the modified components; unless the clause was
  discarded, the splitting event recorded last has the premise and the split clause
  among its premises.
\<close>

theorem propositional_component_named:
  assumes ok: "splitterOK st" and valid: "cl < length (clauses st)"
    and multi: "1 < length (literals (clauses st ! cl))"
    and comps: "comps = clauseComponents (literals (clauses st ! cl))"
    and several: "length comps \<noteq> 1"
    and mem: "[i] \<in> set comps"
    and lit: "lit = literals (clauses st ! cl) ! i"
    and ar: "arity lit = 0"
    and L1: "L1 = foldl (propComponentStep cl) (startSplitting cl comps st) comps"
    and res: "res = doSplitting cl st"
  shows "(\<forall>L. clauses (sp L) ! cl = clauses st ! cl \<longrightarrow>
            propComponentStep cl L [i] =
              L\<lparr>sp := snd (getPropPredName lit (sp L)),
                remainingComps := remainingComps L - 1,
                newMasterProp := disjunction (newMasterProp L)
                   (getAtomic (nameOf (getPropPredName lit (sp L))) (isPositive lit)),
                masterPremises := premiseOf (getPropPredName lit (sp L)) # masterPremises L\<rparr>
          \<and> (map_of (propPredNames (sp L)) (functor' lit) = None \<longrightarrow>
                nameOf (getPropPredName lit (sp L)) = bddNewVar (sp L))
          \<and> (\<forall>k. map_of (propPredNames (sp L)) (functor' lit) = Some k \<longrightarrow>
                nameOf (getPropPredName lit (sp L)) = k))
    \<and> (\<exists>p n. (if isPositive lit
                then map_of (propPredPosNamePremises (snd res)) (functor' lit)
                else map_of (propPredNegNamePremises (snd res)) (functor' lit)) = Some p
          \<and> map_of (propPredNames (snd res)) (functor' lit) = Some n
          \<and> literals (clauses (snd res) ! p) = [lit]
          \<and> prop' (clauses (snd res) ! p) = getAtomic n (\<not> isPositive lit)
          \<and> NonPropInference p \<in> set (inferenceStore (snd res))
          \<and> p \<in> set (masterPremises L1)
          \<and> p \<notin> set (fst (fst res)) \<and> p \<notin> set (snd (fst res))
          \<and> ((\<forall>s. componentLoop cl L1 comps \<noteq> Inl s) \<longrightarrow>
                (\<exists>rs m old new prems.
                    inferenceStore (snd res) = rs @ [SplittingRecord m old new prems]
                  \<and> p \<in> set prems \<and> cl \<in> set prems)))"
proof (intro conjI allI impI)
  fix L :: SplitLoop
  assume same: "clauses (sp L) ! cl = clauses st ! cl"
  have ar': "arity (literals (clauses (sp L) ! cl) ! i) = 0" using ar lit same by simp
  show "propComponentStep cl L [i] =
              L\<lparr>sp := snd (getPropPredName lit (sp L)),
                remainingComps := remainingComps L - 1,
                newMasterProp := disjunction (newMasterProp L)
                   (getAtomic (nameOf (getPropPredName lit (sp L))) (isPositive lit)),
                masterPremises := premiseOf (getPropPredName lit (sp L)) # masterPremises L\<rparr>"
    using propComponentStep_unit [OF ar' refl] lit same by simp
  obtain n p np s where c: "getPropPredName lit (sp L) = ((n, p, np), s)"
    by (cases "getPropPredName lit (sp L)") auto
  show "nameOf (getPropPredName lit (sp L)) = bddNewVar (sp L)"
    if "map_of (propPredNames (sp L)) (functor' lit) = None"
    using gppn_name_fresh [OF c that] by (simp add: c)
  show "nameOf (getPropPredName lit (sp L)) = k"
    if "map_of (propPredNames (sp L)) (functor' lit) = Some k" for k
    using gppn_name_old [OF c that] by (simp add: c)
next
  let ?L0 = "startSplitting cl comps st"
  have ok0: "splitterOK (sp ?L0)" using startSplitting_OK [OF ok] .
  have cl0: "clauses (sp ?L0) = clauses st" by (simp add: startSplitting_def)
  have valid0: "cl < length (clauses (sp ?L0))" using valid cl0 by simp
  have ar0: "arity (literals (clauses (sp ?L0) ! cl) ! i) = 0" using ar lit cl0 by simp
  have lit0: "lit = literals (clauses (sp ?L0) ! cl) ! i" using lit cl0 by simp
  from propComponents_entry [OF valid0 mem ar0 lit0 L1]
  obtain p n where e1: "(if isPositive lit
                then map_of (propPredPosNamePremises (sp L1)) (functor' lit)
                else map_of (propPredNegNamePremises (sp L1)) (functor' lit)) = Some p"
    and n1: "map_of (propPredNames (sp L1)) (functor' lit) = Some n"
    and p1: "p \<in> set (masterPremises L1)"
    by blast
  note F = propComponents_facts [of ?L0 cl comps "functor' lit" n p, folded L1]
  have ok1: "splitterOK (sp L1)" using F ok0 by blast
  have idx1: "list_all (\<lambda>p. p < length (clauses (sp L1))) (variantIndex (sp L1))"
    using ok1 by (simp add: splitterOK_def)
  have stacks1: "stacksInIndex L1"
    using F by (simp add: stacksInIndex_def startSplitting_def)
  have cl1: "cl \<in> set (masterPremises L1)"
    using F by (auto simp: startSplitting_def)
  note CL = componentLoop_phase [OF idx1 stacks1, of cl comps]
  have split: "doSplitting cl st =
      (case componentLoop cl L1 comps of Inl st' \<Rightarrow> (([], []), st') | Inr L2 \<Rightarrow> finishSplitting L2)"
    using multi several by (simp add: doSplitting_def comps [symmetric] L1 Let_def)
  have main: "\<exists>p n. (if isPositive lit
                then map_of (propPredPosNamePremises (snd res)) (functor' lit)
                else map_of (propPredNegNamePremises (snd res)) (functor' lit)) = Some p
          \<and> map_of (propPredNames (snd res)) (functor' lit) = Some n
          \<and> literals (clauses (snd res) ! p) = [lit]
          \<and> prop' (clauses (snd res) ! p) = getAtomic n (\<not> isPositive lit)
          \<and> NonPropInference p \<in> set (inferenceStore (snd res))
          \<and> p \<in> set (masterPremises L1)
          \<and> p \<notin> set (fst (fst res)) \<and> p \<notin> set (snd (fst res))
          \<and> ((\<forall>s. componentLoop cl L1 comps \<noteq> Inl s) \<longrightarrow>
                (\<exists>rs m old new prems.
                    inferenceStore (snd res) = rs @ [SplittingRecord m old new prems]
                  \<and> p \<in> set prems \<and> cl \<in> set prems))"
  proof (cases "componentLoop cl L1 comps")
    case (Inl s)
    have r: "res = (([], []), s)" using res split Inl by simp
    have ph: "indexPhase (sp L1) s" using CL [of _ s] Inl by simp
    have oks: "splitterOK s" using splitterOK_indexPhase [OF ok1 ph] .
    have es: "(if isPositive lit
                then map_of (propPredPosNamePremises s) (functor' lit)
                else map_of (propPredNegNamePremises s) (functor' lit)) = Some p"
      and ns: "map_of (propPredNames s) (functor' lit) = Some n"
      using e1 n1 ph by (auto simp: indexPhase_def split: if_splits)
    note P = premise_facts [OF oks ar es ns]
    show ?thesis using P es ns p1 Inl by (auto simp: r)
  next
    case (Inr L2)
    obtain newC modC st' where fin: "finishSplitting L2 = ((newC, modC), st')"
      by (cases "finishSplitting L2") auto
    have r: "res = ((newC, modC), st')" using res split Inr fin by simp
    from CL [of L2] Inr have ph12: "indexPhase (sp L1) (sp L2)" and stacks2: "stacksInIndex L2"
      and mp12: "set (masterPremises L1) \<subseteq> set (masterPremises L2)"
      by simp_all
    have idx2: "list_all (\<lambda>p. p < length (clauses (sp L2))) (variantIndex (sp L2))"
      using indexPhase_idx [OF ph12] .
    from finishSplitting_phase [OF idx2 stacks2 fin]
    obtain rs m old new prems where ph2: "indexPhase (sp L2) st'"
      and out: "set newC \<union> set modC \<subseteq> set (variantIndex st')"
      and rec: "inferenceStore st' = rs @ [SplittingRecord m old new prems]"
      and mp2: "set (masterPremises L2) \<subseteq> set prems"
      by blast
    have ph: "indexPhase (sp L1) st'" using indexPhase_trans [OF ph12 ph2] .
    have oks: "splitterOK st'" using splitterOK_indexPhase [OF ok1 ph] .
    have es: "(if isPositive lit
                then map_of (propPredPosNamePremises st') (functor' lit)
                else map_of (propPredNegNamePremises st') (functor' lit)) = Some p"
      and ns: "map_of (propPredNames st') (functor' lit) = Some n"
      using e1 n1 ph by (auto simp: indexPhase_def split: if_splits)
    note P = premise_facts [OF oks ar es ns]
    have notout: "p \<notin> set newC \<and> p \<notin> set modC" using P out by blast
    have inprems: "p \<in> set prems \<and> cl \<in> set prems" using p1 cl1 mp12 mp2 by blast
    show ?thesis using P es ns p1 notout inprems rec by (auto simp: r)
  qed
  then show "\<exists>p n. (if isPositive lit
                then map_of (propPredPosNamePremises (snd res)) (functor' lit)
                else map_of (propPredNegNamePremises (snd res)) (functor' lit)) = Some p
          \<and> map_of (propPredNames (snd res)) (functor' lit) = Some n
          \<and> literals (clauses (snd res) ! p) = [lit]
          \<and> prop' (clauses (snd res) ! p) = getAtomic n (\<not> isPositive lit)
          \<and> NonPropInference p \<in> set (inferenceStore (snd res))
          \<and> p \<in> set (masterPremises L1)
          \<and> p \<notin> set (fst (fst res)) \<and> p \<notin> set (snd (fst res))
          \<and> ((\<forall>s. componentLoop cl L1 comps \<noteq> Inl s) \<longrightarrow>
                (\<exists>rs m old new prems.
                    inferenceStore (snd res) = rs @ [SplittingRecord m old new prems]
                  \<and> p \<in> set prems \<and> cl \<in> set prems))" .
qed


theorem propositional_component_named_witness:
  "(let lit = \<lparr>functor' = 5, polarity = True, args = []\<rparr>;
        st = emptySplitter\<lparr>clauses :=
               [newClause [lit, \<lparr>functor' = 6, polarity = True, args = [Var 0]\<rparr>] AXIOM
                  (Inference0 INPUT)]\<rparr>;
        comps = clauseComponents (literals (clauses st ! 0));
        L1 = foldl (propComponentStep 0) (startSplitting 0 comps st) comps;
        res = doSplitting 0 st
    in splitterOK st \<and> 0 < length (clauses st) \<and> 1 < length (literals (clauses st ! 0))
     \<and> length comps \<noteq> 1 \<and> [0] \<in> set comps
     \<and> lit = literals (clauses st ! 0) ! 0 \<and> arity lit = 0
     \<and> fst res = ([2], [])
     \<and> prop' (clauses (snd res) ! 1) = getAtomic 1 False
     \<and> prop' (clauses (snd res) ! 2) = getAtomic 1 True
     \<and> (\<exists>p n. (if isPositive lit
                then map_of (propPredPosNamePremises (snd res)) (functor' lit)
                else map_of (propPredNegNamePremises (snd res)) (functor' lit)) = Some p
          \<and> map_of (propPredNames (snd res)) (functor' lit) = Some n
          \<and> literals (clauses (snd res) ! p) = [lit]
          \<and> prop' (clauses (snd res) ! p) = getAtomic n (\<not> isPositive lit)
          \<and> NonPropInference p \<in> set (inferenceStore (snd res))
          \<and> p \<in> set (masterPremises L1)
          \<and> p \<notin> set (fst (fst res)) \<and> p \<notin> set (snd (fst res))
          \<and> ((\<forall>s. componentLoop 0 L1 comps \<noteq> Inl s) \<longrightarrow>
                (\<exists>rs m old new prems.
                    inferenceStore (snd res) = rs @ [SplittingRecord m old new prems]
                  \<and> p \<in> set prems \<and> 0 \<in> set prems))))"
proof -
  let ?lit = "\<lparr>functor' = 5, polarity = True, args = []\<rparr>"
  let ?st = "emptySplitter\<lparr>clauses :=
               [newClause [?lit, \<lparr>functor' = 6, polarity = True, args = [Var 0]\<rparr>] AXIOM
                  (Inference0 INPUT)]\<rparr>"
  let ?comps = "clauseComponents (literals (clauses ?st ! 0))"
  have ok: "splitterOK ?st" by code_simp
  have valid: "0 < length (clauses ?st)" by code_simp
  have multi: "1 < length (literals (clauses ?st ! 0))" by code_simp
  have several: "length ?comps \<noteq> 1" by code_simp
  have mem: "[0] \<in> set ?comps" by code_simp
  have lit: "?lit = literals (clauses ?st ! 0) ! 0" by code_simp
  have ar: "arity ?lit = 0" by code_simp
  have ev: "fst (doSplitting 0 ?st) = ([2], [])"
    "prop' (clauses (snd (doSplitting 0 ?st)) ! 1) = getAtomic 1 False"
    "prop' (clauses (snd (doSplitting 0 ?st)) ! 2) = getAtomic 1 True"
    by code_simp+
  note inst = propositional_component_named
    [OF ok valid multi refl several mem lit ar refl refl, THEN conjunct2]
  show ?thesis
    unfolding Let_def using ok valid multi several mem lit ar ev inst by blast
qed


section \<open>Splitting keeps the state well formed\<close>

lemma splitterOK_preserved:
  assumes ok: "splitterOK st"
    and maps: "propPredNames st' = propPredNames st"
      "propPredPosNamePremises st' = propPredPosNamePremises st"
      "propPredNegNamePremises st' = propPredNegNamePremises st"
    and len: "length (clauses st) \<le> length (clauses st')"
    and store: "set (inferenceStore st) \<subseteq> set (inferenceStore st')"
    and keep: "\<forall>p \<in> premisePtrs st. clauses st' ! p = clauses st ! p \<and> p \<notin> set (variantIndex st')"
    and idx: "\<forall>q \<in> set (variantIndex st'). q < length (clauses st')"
  shows "splitterOK st'"
proof -
  have "premiseOK st' pol e" if "premiseOK st pol e" "snd e \<in> premisePtrs st" for pol e
    using that keep maps len store unfolding premiseOK_def
    by (auto split: option.splits)
  then show ?thesis using ok maps idx
    by (auto simp: splitterOK_def list_all_iff premisePtrs_def)
qed

lemma premisePtrs_valid:
  "splitterOK st \<Longrightarrow> p \<in> premisePtrs st \<Longrightarrow> p < length (clauses st) \<and> p \<notin> set (variantIndex st)"
  by (auto simp: splitterOK_def list_all_iff premisePtrs_def premiseOK_def)

lemma indexAndReport_OK:
  assumes ok: "splitterOK st" and valid: "cl < length (clauses st)"
    and np: "cl \<notin> premisePtrs st"
  shows "splitterOK (snd (indexAndReport cl st))"
proof -
  have idx: "\<forall>q \<in> set (variantIndex st). q < length (clauses st)"
    using ok by (simp add: splitterOK_def list_all_iff)
  note pv = premisePtrs_valid [OF ok]
  show ?thesis
  proof (cases "retrieveVariants st (literals (clauses st ! cl))")
    case Nil
    then have eq: "snd (indexAndReport cl st) =
        st\<lparr>uniqueComponents := uniqueComponents st + 1, variantIndex := variantIndex st @ [cl]\<rparr>"
      by (simp add: indexAndReport_def insertIntoIndex_def)
    show ?thesis unfolding eq
      by (rule splitterOK_preserved [OF ok]) (use idx valid np pv in auto)
  next
    case (Cons c rest)
    have cin: "c \<in> set (variantIndex st)" using retrieve_in_index [OF Cons] .
    then have cnp: "c \<notin> premisePtrs st" using pv by blast
    have clt: "c < length (clauses st)" using cin idx by blast
    show ?thesis
      by (rule splitterOK_preserved [OF ok])
        (use Cons idx valid np pv cnp clt in
          \<open>auto simp: indexAndReport_def insertIntoIndex_def Let_def setProp_def record'_def
             nth_list_update split: if_splits\<close>)
  qed
qed


lemma handleNoSplit_OK:
  assumes ok: "splitterOK st" and valid: "cl < length (clauses st)"
    and np: "cl \<notin> premisePtrs st"
  shows "splitterOK (snd (handleNoSplit cl st))"
proof (cases "length (literals (clauses st ! cl)) = 1 \<and> arity (literals (clauses st ! cl) ! 0) = 0")
  case False
  then show ?thesis using indexAndReport_OK [OF ok valid np] by (auto simp: handleNoSplit_def)
next
  case True
  let ?lit = "literals (clauses st ! cl) ! 0"
  have unit: "literals (clauses st ! cl) = [?lit]"
    using True by (cases "literals (clauses st ! cl)") auto
  obtain n p np' s where c: "getPropPredName ?lit st = ((n, p, np'), s)"
    by (cases "getPropPredName ?lit st") auto
  have oks: "splitterOK s" using gppn_OK [OF ok _ c] True by simp
  let ?new = "length (clauses s)"
  let ?st4 = "s\<lparr>clauses := clauses s @
                [\<lparr>literals = [], inputType = inputType (clauses st ! cl),
                  inference = Inference2 SPLITTING cl p,
                  prop' = getAtomic n (isPositive ?lit), splits = []\<rparr>],
              inferenceStore := inferenceStore s @ [NonPropInference ?new]\<rparr>"
  have eq: "namePropUnit cl st = (?new, ?st4)"
    using namePropUnit_eq [OF valid unit refl] by (simp add: c)
  note pv = premisePtrs_valid [OF oks]
  have ok4: "splitterOK ?st4"
    by (rule splitterOK_preserved [OF oks])
      (use oks pv in \<open>auto simp: nth_append splitterOK_def list_all_iff\<close>)
  have np4: "?new \<notin> premisePtrs ?st4"
    using pv by (auto simp: premisePtrs_def)
  have "splitterOK (snd (indexAndReport ?new ?st4))"
    by (rule indexAndReport_OK [OF ok4 _ np4]) simp
  then show ?thesis using True by (simp add: handleNoSplit_def eq)
qed

lemma doSplitting_OK:
  assumes ok: "splitterOK st" and valid: "cl < length (clauses st)"
    and np: "cl \<notin> premisePtrs st"
  shows "splitterOK (snd (doSplitting cl st))"
proof (cases "length (literals (clauses st ! cl)) \<le> 1
              \<or> length (clauseComponents (literals (clauses st ! cl))) = 1")
  case True
  then show ?thesis using handleNoSplit_OK [OF ok valid np]
    by (auto simp: doSplitting_def Let_def)
next
  case False
  let ?comps = "clauseComponents (literals (clauses st ! cl))"
  let ?L0 = "startSplitting cl ?comps st"
  let ?L1 = "foldl (propComponentStep cl) ?L0 ?comps"
  have ok1: "splitterOK (sp ?L1)"
    using propComponents_facts [of ?L0 cl ?comps] startSplitting_OK [OF ok] by blast
  have idx1: "list_all (\<lambda>p. p < length (clauses (sp ?L1))) (variantIndex (sp ?L1))"
    using ok1 by (simp add: splitterOK_def)
  have stacks1: "stacksInIndex ?L1"
    using propComponents_facts [of ?L0 cl ?comps] by (simp add: stacksInIndex_def startSplitting_def)
  note CL = componentLoop_phase [OF idx1 stacks1, of cl ?comps]
  have split: "doSplitting cl st =
      (case componentLoop cl ?L1 ?comps of Inl st' \<Rightarrow> (([], []), st') | Inr L2 \<Rightarrow> finishSplitting L2)"
    using False by (simp add: doSplitting_def Let_def)
  show ?thesis
  proof (cases "componentLoop cl ?L1 ?comps")
    case (Inl s)
    then show ?thesis using CL [of _ s] splitterOK_indexPhase [OF ok1] by (simp add: split)
  next
    case (Inr L2)
    obtain newC modC st' where fin: "finishSplitting L2 = ((newC, modC), st')"
      by (cases "finishSplitting L2") auto
    from CL [of L2] Inr have ph12: "indexPhase (sp ?L1) (sp L2)" and stacks2: "stacksInIndex L2"
      by simp_all
    have "indexPhase (sp L2) st'"
      using finishSplitting_phase [OF indexPhase_idx [OF ph12] stacks2 fin] by blast
    then have "splitterOK st'"
      using splitterOK_indexPhase [OF ok1 indexPhase_trans [OF ph12]] by blast
    then show ?thesis using Inr fin by (simp add: split)
  qed
qed

lemma emptySplitter_OK: "splitterOK emptySplitter"
  by (simp add: splitterOK_def emptySplitter_def)


section \<open>Adding answer literals to conjectures\<close>

lemma makeVar_eq: "makeVar v = Var (unat v mod 2 ^ 30)"
proof -
  have "unat (v * 4 + 1) = (unat v * 4 + 1) mod 2 ^ 32"
    by (simp add: unat_word_ariths mod_Suc_eq)
  moreover have "((a::nat) * 4 + 1) mod 2 ^ 32 div 4 = a mod 2 ^ 30" for a
  proof -
    have "(a * 4 + 1) mod (4 * 2 ^ 30) div 4 = (a * 4 + 1) div 4 mod 2 ^ 30"
      by (simp only: mod_mult2_eq)
    moreover have "(a * 4 + 1) div 4 = a" by simp
    ultimately show ?thesis by simp
  qed
  ultimately show ?thesis by (simp add: makeVar_def)
qed

lemma makeVar_small: "unat v < 2 ^ 30 \<Longrightarrow> makeVar v = Var (unat v)"
  by (simp add: makeVar_eq)

lemma makeVar_wraps: "makeVar (2 ^ 30) = Var 0"
  by (simp add: makeVar_eq)

lemma getAnswerLiteral_eq:
  "getAnswerLiteral vars sg =
     (\<lparr>functor' = predCount sg, polarity = True,
       args = map (\<lambda>v. Var (unat v mod 2 ^ 30)) vars\<rparr>,
      sg\<lparr>symbols := (symbols sg)
              (predCount sg := \<lparr>symName = ''ans'', symArity = length vars, answerPredicate = True\<rparr>),
         predCount := predCount sg + 1\<rparr>)"
  by (simp add: getAnswerLiteral_def addNamePredicate_def markAnswerPredicate_def Let_def
      makeVar_eq)

lemma tryAdding_rewrites:
  assumes "units st ! u = FormulaUnit (NegatedFormula (QuantifiedFormula EXISTS vars phi)) i CONJECTURE"
  shows "tryAddingAnswerLiteral fl u st =
     (length (units st),
      st\<lparr>units := units st @
            [FormulaUnit
               (fl (NegatedFormula (QuantifiedFormula EXISTS vars
                  (JunctionFormula AND
                     [AtomicFormula \<lparr>functor' = predCount (signature st), polarity = True,
                                     args = map (\<lambda>v. Var (unat v mod 2 ^ 30)) vars\<rparr>, phi]))))
               (Inference1 ANSWER_LITERAL u) CONJECTURE],
          signature := snd (getAnswerLiteral vars (signature st))\<rparr>)"
  using assms by (simp add: tryAddingAnswerLiteral_def getAnswerLiteral_eq Let_def)

lemma tryAdding_unchanged:
  assumes "isClause (units st ! u) \<or> unitInputType (units st ! u) \<noteq> CONJECTURE
     \<or> (\<forall>f i t. units st ! u = FormulaUnit f i t \<longrightarrow>
          (\<forall>vars phi. f \<noteq> NegatedFormula (QuantifiedFormula EXISTS vars phi)))"
  shows "tryAddingAnswerLiteral fl u st = (u, st)"
proof (cases "units st ! u")
  case (ClauseUnit c)
  then show ?thesis by (simp add: tryAddingAnswerLiteral_def)
next
  case (FormulaUnit f i ty)
  show ?thesis
  proof (cases "ty = CONJECTURE")
    case False
    then show ?thesis using FormulaUnit by (simp add: tryAddingAnswerLiteral_def)
  next
    case True
    with assms FormulaUnit have no: "\<forall>vars phi. f \<noteq> NegatedFormula (QuantifiedFormula EXISTS vars phi)"
      by simp
    then show ?thesis using FormulaUnit True
      by (auto simp: tryAddingAnswerLiteral_def split: Formula.splits Connective.splits)
  qed
qed


text \<open>
  C5 (amended): for every allocated unit \<open>u\<close>, \<open>tryAddingAnswerLiteral\<close> returns a new
  formula unit if and only if \<open>u\<close> is a formula unit of input type CONJECTURE whose
  formula is \<open>not (exists x1...xn. phi)\<close>. The new unit holds the flattening of
  \<open>not (exists x1...xn. (ans(y1,...,yn) and phi))\<close>, the answer literal being the first
  conjunct, has the input type CONJECTURE and the inference ANSWER_LITERAL from \<open>u\<close>;
  \<open>ans\<close> is a positive literal of the next unused predicate number, whose symbol has
  arity \<open>n\<close> and is marked as an answer predicate. Its argument \<open>yi\<close> is the variable
  numbered \<open>xi mod 2 ^ 30\<close>, the variable number \<open>xi\<close> being read as an unsigned 32-bit
  integer: it is \<open>xi\<close> itself for every variable number below \<open>2 ^ 30\<close>, and
  \<open>TermList::makeVar\<close> wraps above (lemma \<open>makeVar_wraps\<close>). Every other unit is
  returned as it is, with the state unchanged.
\<close>

theorem answer_literal_added:
  assumes valid: "u < length (units st)"
  shows "(fst (tryAddingAnswerLiteral fl u st) \<noteq> u
           \<longleftrightarrow> (\<exists>vars phi i. units st ! u =
                 FormulaUnit (NegatedFormula (QuantifiedFormula EXISTS vars phi)) i CONJECTURE))
    \<and> (\<forall>vars phi i. units st ! u =
           FormulaUnit (NegatedFormula (QuantifiedFormula EXISTS vars phi)) i CONJECTURE \<longrightarrow>
         fst (tryAddingAnswerLiteral fl u st) = length (units st)
       \<and> units (snd (tryAddingAnswerLiteral fl u st)) = units st @
           [FormulaUnit
              (fl (NegatedFormula (QuantifiedFormula EXISTS vars
                 (JunctionFormula AND
                    [AtomicFormula \<lparr>functor' = predCount (signature st), polarity = True,
                                    args = map (\<lambda>v. Var (unat v mod 2 ^ 30)) vars\<rparr>, phi]))))
              (Inference1 ANSWER_LITERAL u) CONJECTURE]
       \<and> symArity (getPredicate (signature (snd (tryAddingAnswerLiteral fl u st)))
            (predCount (signature st))) = length vars
       \<and> answerPredicate (getPredicate (signature (snd (tryAddingAnswerLiteral fl u st)))
            (predCount (signature st))))
    \<and> ((\<nexists>vars phi i. units st ! u =
           FormulaUnit (NegatedFormula (QuantifiedFormula EXISTS vars phi)) i CONJECTURE) \<longrightarrow>
         tryAddingAnswerLiteral fl u st = (u, st))"
proof -
  have pos: "fst (tryAddingAnswerLiteral fl u st) = length (units st)
       \<and> units (snd (tryAddingAnswerLiteral fl u st)) = units st @
           [FormulaUnit
              (fl (NegatedFormula (QuantifiedFormula EXISTS vars
                 (JunctionFormula AND
                    [AtomicFormula \<lparr>functor' = predCount (signature st), polarity = True,
                                    args = map (\<lambda>v. Var (unat v mod 2 ^ 30)) vars\<rparr>, phi]))))
              (Inference1 ANSWER_LITERAL u) CONJECTURE]
       \<and> symArity (getPredicate (signature (snd (tryAddingAnswerLiteral fl u st)))
            (predCount (signature st))) = length vars
       \<and> answerPredicate (getPredicate (signature (snd (tryAddingAnswerLiteral fl u st)))
            (predCount (signature st)))"
    if "units st ! u = FormulaUnit (NegatedFormula (QuantifiedFormula EXISTS vars phi)) i CONJECTURE"
    for vars phi i
    by (simp add: tryAdding_rewrites [OF that] getAnswerLiteral_eq getPredicate_def)
  have neg: "tryAddingAnswerLiteral fl u st = (u, st)"
    if no: "\<nexists>vars phi i. units st ! u =
           FormulaUnit (NegatedFormula (QuantifiedFormula EXISTS vars phi)) i CONJECTURE"
  proof (rule tryAdding_unchanged)
    show "isClause (units st ! u) \<or> unitInputType (units st ! u) \<noteq> CONJECTURE
     \<or> (\<forall>f i t. units st ! u = FormulaUnit f i t \<longrightarrow>
          (\<forall>vars phi. f \<noteq> NegatedFormula (QuantifiedFormula EXISTS vars phi)))"
      using no by (cases "units st ! u") auto
  qed
  have iff: "fst (tryAddingAnswerLiteral fl u st) \<noteq> u
           \<longleftrightarrow> (\<exists>vars phi i. units st ! u =
                 FormulaUnit (NegatedFormula (QuantifiedFormula EXISTS vars phi)) i CONJECTURE)"
  proof
    assume "fst (tryAddingAnswerLiteral fl u st) \<noteq> u"
    then show "\<exists>vars phi i. units st ! u =
                 FormulaUnit (NegatedFormula (QuantifiedFormula EXISTS vars phi)) i CONJECTURE"
      using neg by fastforce
  next
    assume "\<exists>vars phi i. units st ! u =
                 FormulaUnit (NegatedFormula (QuantifiedFormula EXISTS vars phi)) i CONJECTURE"
    then show "fst (tryAddingAnswerLiteral fl u st) \<noteq> u"
      using pos valid by fastforce
  qed
  show ?thesis using iff pos neg by blast
qed

theorem answer_literal_added_witness:
  "(0::nat) < length (units \<lparr>units =
        [FormulaUnit (NegatedFormula (QuantifiedFormula EXISTS [0]
           (AtomicFormula \<lparr>functor' = 0, polarity = True, args = [Var 0, Var 0]\<rparr>)))
           (Inference0 INPUT) CONJECTURE],
      signature = initialSignature\<rparr>)
   \<and> tryAddingAnswerLiteral flatten 0 \<lparr>units =
        [FormulaUnit (NegatedFormula (QuantifiedFormula EXISTS [0]
           (AtomicFormula \<lparr>functor' = 0, polarity = True, args = [Var 0, Var 0]\<rparr>)))
           (Inference0 INPUT) CONJECTURE],
      signature = initialSignature\<rparr>
     \<noteq> (0, \<lparr>units =
        [FormulaUnit (NegatedFormula (QuantifiedFormula EXISTS [0]
           (AtomicFormula \<lparr>functor' = 0, polarity = True, args = [Var 0, Var 0]\<rparr>)))
           (Inference0 INPUT) CONJECTURE],
      signature = initialSignature\<rparr>)
   \<and> units (snd (tryAddingAnswerLiteral flatten 0 \<lparr>units =
        [FormulaUnit (NegatedFormula (QuantifiedFormula EXISTS [0]
           (AtomicFormula \<lparr>functor' = 0, polarity = True, args = [Var 0, Var 0]\<rparr>)))
           (Inference0 INPUT) CONJECTURE],
      signature = initialSignature\<rparr>)) ! 1
     = FormulaUnit (NegatedFormula (QuantifiedFormula EXISTS [0]
         (JunctionFormula AND
            [AtomicFormula \<lparr>functor' = 1, polarity = True, args = [Var 0]\<rparr>,
             AtomicFormula \<lparr>functor' = 0, polarity = True, args = [Var 0, Var 0]\<rparr>])))
         (Inference1 ANSWER_LITERAL 0) CONJECTURE"
proof -
  let ?phi = "AtomicFormula \<lparr>functor' = 0, polarity = True, args = [Var 0, Var 0]\<rparr>"
  let ?st = "\<lparr>units = [FormulaUnit (NegatedFormula (QuantifiedFormula EXISTS [0] ?phi))
                         (Inference0 INPUT) CONJECTURE],
              signature = initialSignature\<rparr>"
  have valid: "0 < length (units ?st)" by simp
  have shape: "units ?st ! 0 =
      FormulaUnit (NegatedFormula (QuantifiedFormula EXISTS [0] ?phi)) (Inference0 INPUT) CONJECTURE"
    by simp
  have cnt: "predCount (signature ?st) = 1" by (simp add: initialSignature_def)
  note added = answer_literal_added [OF valid, of flatten]
  have new: "fst (tryAddingAnswerLiteral flatten 0 ?st) \<noteq> 0"
    using added [THEN conjunct1] shape by blast
  note pos = added [THEN conjunct2, THEN conjunct1, rule_format, OF shape]
  from new pos show ?thesis using valid by (auto simp: initialSignature_def)
qed

text \<open>
  C5, as stated, at the conjecture \<open>not (exists X0. X0 = X0)\<close>: the formula of the new
  unit is not the flattening of \<open>not (exists X0. (X0 = X0 and ans(X0)))\<close>; the code
  pushes the answer literal in front of \<open>phi\<close>.
\<close>

theorem answer_literal_order_counterexample:
  "units (snd (tryAddingAnswerLiteral flatten 0 \<lparr>units =
        [FormulaUnit (NegatedFormula (QuantifiedFormula EXISTS [0]
           (AtomicFormula \<lparr>functor' = 0, polarity = True, args = [Var 0, Var 0]\<rparr>)))
           (Inference0 INPUT) CONJECTURE],
      signature = initialSignature\<rparr>)) ! 1
     \<noteq> FormulaUnit (flatten (NegatedFormula (QuantifiedFormula EXISTS [0]
         (JunctionFormula AND
            [AtomicFormula \<lparr>functor' = 0, polarity = True, args = [Var 0, Var 0]\<rparr>,
             AtomicFormula \<lparr>functor' = 1, polarity = True, args = [Var 0]\<rparr>]))))
         (Inference1 ANSWER_LITERAL 0) CONJECTURE"
  by (simp add: tryAddingAnswerLiteral_def getAnswerLiteral_eq initialSignature_def)


section \<open>Capturing answer clauses during saturation\<close>

lemmas grc_defs = getResolverClause_def fromIterator_def Let_def

lemma grc_lookup:
  "getResolverClause pred st = (rp, st') \<Longrightarrow> map_of (resolverClauses st') pred = Some rp"
  by (auto simp: grc_defs split: option.splits)

lemma grc_stable:
  "getResolverClause pred st = (rp, st') \<Longrightarrow> map_of (resolverClauses st) q = Some p \<Longrightarrow>
     map_of (resolverClauses st') q = Some p"
  by (auto simp: grc_defs split: option.splits)

lemma grc_frame:
  "getResolverClause pred st = (rp, st') \<Longrightarrow>
     sig st' = sig st \<and> answers st' = answers st
     \<and> length (heap st) \<le> length (heap st')
     \<and> (\<forall>p < length (heap st). heap st' ! p = heap st ! p)"
  by (auto simp: grc_defs nth_append split: option.splits)

lemma resolverOK_mono:
  "resolverOK st e \<Longrightarrow> sig st' = sig st \<Longrightarrow> length (heap st) \<le> length (heap st') \<Longrightarrow>
   (\<forall>p < length (heap st). heap st' ! p = heap st ! p) \<Longrightarrow> resolverOK st' e"
  by (auto simp: resolverOK_def)

lemma grc_OK:
  assumes ok: "resolversOK st" and call: "getResolverClause pred st = (rp, st')"
  shows "resolversOK st'"
proof (cases "map_of (resolverClauses st) pred")
  case (Some r)
  then show ?thesis using ok call by (simp add: grc_defs)
next
  case None
  have old: "list_all (resolverOK st') (resolverClauses st)"
    using ok resolverOK_mono [where st = st and st' = st'] grc_frame [OF call]
    by (auto simp: resolversOK_def list_all_iff)
  have new: "resolverOK st' (pred, rp)"
    using call None by (auto simp: grc_defs resolverOK_def)
  have "resolverClauses st' = (pred, rp) # resolverClauses st"
    using call None by (auto simp: grc_defs)
  then show ?thesis using old new by (simp add: resolversOK_def)
qed

lemma resolverLoop_spec:
  "resolverLoop ls prems st = (prems', st') \<Longrightarrow>
     prems' = rev (map (\<lambda>l. the (map_of (resolverClauses st') (functor' l))) ls) @ prems
     \<and> (\<forall>l\<in>set ls. map_of (resolverClauses st') (functor' l) \<noteq> None)
     \<and> (\<forall>q p. map_of (resolverClauses st) q = Some p \<longrightarrow> map_of (resolverClauses st') q = Some p)
     \<and> sig st' = sig st \<and> answers st' = answers st
     \<and> length (heap st) \<le> length (heap st')
     \<and> (\<forall>p < length (heap st). heap st' ! p = heap st ! p)
     \<and> (resolversOK st \<longrightarrow> resolversOK st')"
proof (induction ls arbitrary: prems st)
  case Nil
  then show ?case by simp
next
  case (Cons l ls)
  obtain rp s where call: "getResolverClause (functor' l) st = (rp, s)"
    by (cases "getResolverClause (functor' l) st")
  from Cons.prems have rest: "resolverLoop ls (rp # prems) s = (prems', st')"
    by (simp add: call)
  note IH = Cons.IH [OF rest]
  note fr = grc_frame [OF call]
  have here: "map_of (resolverClauses st') (functor' l) = Some rp"
    using grc_lookup [OF call] IH by blast
  have stable: "\<forall>q p. map_of (resolverClauses st) q = Some p \<longrightarrow> map_of (resolverClauses st') q = Some p"
    using grc_stable [OF call] IH by blast
  have heap: "\<forall>p < length (heap st). heap st' ! p = heap st ! p"
    using fr IH by auto
  have ok: "resolversOK st \<longrightarrow> resolversOK st'"
    using grc_OK [OF _ call] IH by blast
  show ?case using IH here stable heap ok fr by auto
qed

lemma resolverOK_lookup:
  "resolversOK st \<Longrightarrow> map_of (resolverClauses st) q = Some p \<Longrightarrow> resolverOK st (q, p)"
  by (auto simp: resolversOK_def list_all_iff dest!: map_of_SomeD)

text \<open>
  C1 (amended): for an allocated clause \<open>C\<close> reported to \<open>onNewClause\<close> (in a state whose
  resolver clauses are well formed), \<open>C\<close> is pushed onto the answers stack and
  \<open>RefutationFoundException\<close> is thrown if and only if \<open>C\<close> has no propositional part,
  no splits, and the predicate of every literal of \<open>C\<close> is an answer predicate, whatever
  the polarity of the literal. The exception carries a new clause without literals, of
  the input type of \<open>C\<close>, built by UNIT_RESULTING_RESOLUTION; its premises are, in front
  of \<open>C\<close>, one entry per literal of \<open>C\<close>: the resolver clause \<open>{ans(X0,...,Xn-1)}\<close> of the
  literal's predicate, an axiom by ANSWER_LITERAL, one clause per predicate. Otherwise
  \<open>onNewClause\<close> returns and nothing changes.
\<close>

theorem answer_clause_captured:
  assumes valid: "cl < length (heap st)" and ok: "resolversOK st"
  shows "(isl (fst (onNewClause cl st)) \<longleftrightarrow>
            noProp (heap st ! cl) \<and> noSplits (heap st ! cl)
            \<and> list_all (isAnswerLiteral (sig st)) (literals (heap st ! cl)))
    \<and> (\<not> isl (fst (onNewClause cl st)) \<longrightarrow> onNewClause cl st = (Inr (), st))
    \<and> (isl (fst (onNewClause cl st)) \<longrightarrow>
         (\<exists>r st'. onNewClause cl st = (Inl (RefutationFoundException r), st')
            \<and> answers st' = cl # answers st
            \<and> heap st' ! r =
                newClause [] (inputType (heap st ! cl))
                  (InferenceMany UNIT_RESULTING_RESOLUTION
                     (rev (map (\<lambda>l. the (map_of (resolverClauses st') (functor' l)))
                            (literals (heap st ! cl))) @ [cl]))
            \<and> (\<forall>l\<in>set (literals (heap st ! cl)).
                  map_of (resolverClauses st') (functor' l) \<noteq> None
                \<and> heap st' ! the (map_of (resolverClauses st') (functor' l)) =
                    newClause
                      [\<lparr>functor' = functor' l, polarity = True,
                        args = map Var [0 ..< symArity (getPredicate (sig st) (functor' l))]\<rparr>]
                      AXIOM (Inference0 ANSWER_LITERAL))
            \<and> (\<forall>p < length (heap st). heap st' ! p = heap st ! p)))"
proof -
  let ?C = "heap st ! cl"
  let ?cond = "noProp ?C \<and> noSplits ?C \<and> list_all (isAnswerLiteral (sig st)) (literals ?C)"
  have no: "onNewClause cl st = (Inr (), st)" if "\<not> ?cond"
    using that by (auto simp: onNewClause_def)
  have yes: "\<exists>r st'. onNewClause cl st = (Inl (RefutationFoundException r), st')
            \<and> answers st' = cl # answers st
            \<and> heap st' ! r =
                newClause [] (inputType ?C)
                  (InferenceMany UNIT_RESULTING_RESOLUTION
                     (rev (map (\<lambda>l. the (map_of (resolverClauses st') (functor' l)))
                            (literals ?C)) @ [cl]))
            \<and> (\<forall>l\<in>set (literals ?C).
                  map_of (resolverClauses st') (functor' l) \<noteq> None
                \<and> heap st' ! the (map_of (resolverClauses st') (functor' l)) =
                    newClause
                      [\<lparr>functor' = functor' l, polarity = True,
                        args = map Var [0 ..< symArity (getPredicate (sig st) (functor' l))]\<rparr>]
                      AXIOM (Inference0 ANSWER_LITERAL))
            \<and> (\<forall>p < length (heap st). heap st' ! p = heap st ! p)"
    if c: "?cond"
  proof -
    let ?st1 = "st\<lparr>answers := cl # answers st\<rparr>"
    obtain prems s where loop: "resolverLoop (literals ?C) [cl] ?st1 = (prems, s)"
      by (cases "resolverLoop (literals ?C) [cl] ?st1")
    note L = resolverLoop_spec [OF loop]
    let ?r = "length (heap s)"
    let ?st' = "s\<lparr>heap := heap s @ [newClause [] (inputType ?C)
                   (InferenceMany UNIT_RESULTING_RESOLUTION prems)]\<rparr>"
    have same: "heap s ! cl = ?C" using L valid by simp
    have res: "onNewClause cl st = (Inl (RefutationFoundException ?r), ?st')"
      using c loop same by (simp add: onNewClause_def getRefutation_def fromIterator_def)
    have "resolverOK ?st1 = resolverOK st" by (rule ext) (simp add: resolverOK_def)
    then have ok1: "resolversOK ?st1" using ok by (simp add: resolversOK_def)
    then have oks: "resolversOK s" using L by blast
    have each: "map_of (resolverClauses ?st') (functor' l) \<noteq> None
                \<and> heap ?st' ! the (map_of (resolverClauses ?st') (functor' l)) =
                    newClause
                      [\<lparr>functor' = functor' l, polarity = True,
                        args = map Var [0 ..< symArity (getPredicate (sig st) (functor' l))]\<rparr>]
                      AXIOM (Inference0 ANSWER_LITERAL)"
      if "l \<in> set (literals ?C)" for l
    proof -
      from L that obtain p where p: "map_of (resolverClauses s) (functor' l) = Some p" by auto
      have "resolverOK s (functor' l, p)" using resolverOK_lookup [OF oks p] .
      then show ?thesis using p L by (simp add: resolverOK_def nth_append)
    qed
    have prefix: "\<forall>p < length (heap st). heap ?st' ! p = heap st ! p"
      using L by (auto simp: nth_append)
    have "answers ?st' = cl # answers st" using L by simp
    moreover have "heap ?st' ! ?r = newClause [] (inputType ?C)
                  (InferenceMany UNIT_RESULTING_RESOLUTION
                     (rev (map (\<lambda>l. the (map_of (resolverClauses ?st') (functor' l)))
                            (literals ?C)) @ [cl]))"
      using L by simp
    ultimately show ?thesis using res each prefix by blast
  qed
  have iff: "isl (fst (onNewClause cl st)) \<longleftrightarrow> ?cond"
    using no yes by (cases "?cond") auto
  show ?thesis using iff no yes by blast
qed


theorem answer_clause_captured_witness:
  "(0::nat) < length (heap \<lparr>heap =
        [newClause [\<lparr>functor' = 1, polarity = False, args = [Fn 3 []]\<rparr>,
                    \<lparr>functor' = 1, polarity = False, args = [Fn 4 []]\<rparr>]
           CONJECTURE (Inference0 CLAUSIFY)],
      sig = snd (getAnswerLiteral [0] initialSignature), answers = [], resolverClauses = []\<rparr>)
   \<and> resolversOK \<lparr>heap =
        [newClause [\<lparr>functor' = 1, polarity = False, args = [Fn 3 []]\<rparr>,
                    \<lparr>functor' = 1, polarity = False, args = [Fn 4 []]\<rparr>]
           CONJECTURE (Inference0 CLAUSIFY)],
      sig = snd (getAnswerLiteral [0] initialSignature), answers = [], resolverClauses = []\<rparr>
   \<and> isl (fst (onNewClause 0 \<lparr>heap =
        [newClause [\<lparr>functor' = 1, polarity = False, args = [Fn 3 []]\<rparr>,
                    \<lparr>functor' = 1, polarity = False, args = [Fn 4 []]\<rparr>]
           CONJECTURE (Inference0 CLAUSIFY)],
      sig = snd (getAnswerLiteral [0] initialSignature), answers = [], resolverClauses = []\<rparr>))
   \<and> heap (snd (onNewClause 0 \<lparr>heap =
        [newClause [\<lparr>functor' = 1, polarity = False, args = [Fn 3 []]\<rparr>,
                    \<lparr>functor' = 1, polarity = False, args = [Fn 4 []]\<rparr>]
           CONJECTURE (Inference0 CLAUSIFY)],
      sig = snd (getAnswerLiteral [0] initialSignature), answers = [], resolverClauses = []\<rparr>)) ! 2
     = newClause [] CONJECTURE (InferenceMany UNIT_RESULTING_RESOLUTION [1, 1, 0])
   \<and> heap (snd (onNewClause 0 \<lparr>heap =
        [newClause [\<lparr>functor' = 1, polarity = False, args = [Fn 3 []]\<rparr>,
                    \<lparr>functor' = 1, polarity = False, args = [Fn 4 []]\<rparr>]
           CONJECTURE (Inference0 CLAUSIFY)],
      sig = snd (getAnswerLiteral [0] initialSignature), answers = [], resolverClauses = []\<rparr>)) ! 1
     = newClause [\<lparr>functor' = 1, polarity = True, args = [Var 0]\<rparr>] AXIOM (Inference0 ANSWER_LITERAL)"
proof -
  let ?st = "\<lparr>heap =
        [newClause [\<lparr>functor' = 1, polarity = False, args = [Fn 3 []]\<rparr>,
                    \<lparr>functor' = 1, polarity = False, args = [Fn 4 []]\<rparr>]
           CONJECTURE (Inference0 CLAUSIFY)],
      sig = snd (getAnswerLiteral [0] initialSignature), answers = [], resolverClauses = []\<rparr>"
  have valid: "0 < length (heap ?st)" and ok: "resolversOK ?st"
    by (simp_all add: resolversOK_def)
  have cond: "noProp (heap ?st ! 0) \<and> noSplits (heap ?st ! 0)
      \<and> list_all (isAnswerLiteral (sig ?st)) (literals (heap ?st ! 0))"
    by (simp add: noProp_def noSplits_def newClause_def isFalse_def getFalse_def
        isAnswerLiteral_def getPredicate_def getAnswerLiteral_eq initialSignature_def)
  have thrown: "isl (fst (onNewClause 0 ?st))"
    using answer_clause_captured [OF valid ok] cond by blast
  have ev: "heap (snd (onNewClause 0 ?st)) ! 2
       = newClause [] CONJECTURE (InferenceMany UNIT_RESULTING_RESOLUTION [1, 1, 0])"
    "heap (snd (onNewClause 0 ?st)) ! 1
       = newClause [\<lparr>functor' = 1, polarity = True, args = [Var 0]\<rparr>] AXIOM (Inference0 ANSWER_LITERAL)"
    using cond
    by (simp_all add: onNewClause_def getRefutation_def grc_defs newClause_def
        getPredicate_def getAnswerLiteral_eq initialSignature_def)
  show ?thesis using valid ok thrown ev by blast
qed

text \<open>
  C1, as stated, at the clause \<open>{~ans(c)}\<close>: it is captured and the exception is thrown,
  although its literal is not positive. \<open>isAnswerLiteral\<close> looks at the predicate only.
\<close>

theorem answer_clause_negative_counterexample:
  "isl (fst (onNewClause 0 \<lparr>heap =
        [newClause [\<lparr>functor' = 1, polarity = False, args = [Fn 3 []]\<rparr>]
           CONJECTURE (Inference0 CLAUSIFY)],
      sig = snd (getAnswerLiteral [0] initialSignature), answers = [], resolverClauses = []\<rparr>))
   \<and> \<not> list_all isPositive (literals (heap \<lparr>heap =
        [newClause [\<lparr>functor' = 1, polarity = False, args = [Fn 3 []]\<rparr>]
           CONJECTURE (Inference0 CLAUSIFY)],
      sig = snd (getAnswerLiteral [0] initialSignature), answers = [], resolverClauses = []\<rparr> ! 0))"
  by (simp add: onNewClause_def getRefutation_def grc_defs newClause_def noProp_def noSplits_def
      isFalse_def getFalse_def isAnswerLiteral_def getPredicate_def getAnswerLiteral_eq
      initialSignature_def isPositive_def)


section \<open>The equality fallback of the conjunctive goal extractor\<close>

lemma nextLemmaUnif_exhausted:
  "list_all (\<lambda>q. unifyArgs U s L 0 q 1 = None) its \<Longrightarrow> nextLemmaUnif U s L its = (None, [])"
  by (induction its) auto

lemma nextLemmaUnif_None:
  "nextLemmaUnif U s L its = (None, rest) \<Longrightarrow>
     rest = [] \<and> list_all (\<lambda>q. unifyArgs U s L 0 q 1 = None) its"
  by (induction its) (auto split: option.splits)

lemma nextGoalUnif_exhausted_goal:
  assumes d: "depth B < length (goalLits B)"
    and lens: "length (unifIts B) = length (goalLits B)"
      "length (triedEqUnif B) = length (goalLits B)"
    and L: "L = goalLits B ! depth B"
    and exhausted: "list_all (\<lambda>q. unifyArgs U (subst B) L 0 q 1 = None) (unifIts B ! depth B)"
  shows "(\<not> triedEqUnif B ! depth B \<and> isEquality L \<and> isPositive L \<longrightarrow>
           nextGoalUnif U B =
             (unify U (subst B) (args L ! 0) 0 (args L ! 1) 0 \<noteq> None,
              B\<lparr>unifIts := (unifIts B)[depth B := []],
                triedEqUnif := (triedEqUnif B)[depth B := True],
                subst := (case unify U (subst B) (args L ! 0) 0 (args L ! 1) 0 of
                            Some s' \<Rightarrow> s' | None \<Rightarrow> subst B)\<rparr>))
    \<and> (\<not> (\<not> triedEqUnif B ! depth B \<and> isEquality L \<and> isPositive L) \<longrightarrow>
           nextGoalUnif U B = (False, B\<lparr>unifIts := (unifIts B)[depth B := []]\<rparr>))
    \<and> (triedEqUnif (snd (nextGoalUnif U B)) ! depth B \<longleftrightarrow>
           triedEqUnif B ! depth B \<or> (isEquality L \<and> isPositive L))
    \<and> nextGoalUnif U (snd (nextGoalUnif U B)) = (False, snd (nextGoalUnif U B))
    \<and> \<not> triedEqUnif (enterGoal U B) ! depth B
    \<and> (\<not> fst (nextGoalUnif U B) \<longrightarrow>
           runStep U B =
             (if depth B = 0 then Inl (False, leaveGoal (snd (nextGoalUnif U B)))
              else Inr ((leaveGoal (snd (nextGoalUnif U B)))\<lparr>depth := depth B - 1\<rparr>))
         \<and> subst (leaveGoal (snd (nextGoalUnif U B))) = btData B ! depth B)"
proof -
  let ?d = "depth B"
  let ?u = "unify U (subst B) (args L ! 0) 0 (args L ! 1) 0"
  let ?B1 = "B\<lparr>unifIts := (unifIts B)[?d := []]\<rparr>"
  let ?fallback = "\<not> triedEqUnif B ! ?d \<and> isEquality L \<and> isPositive L"
  have lem: "nextLemmaUnif U (subst B) (goalLits B ! ?d) (unifIts B ! ?d) = (None, [])"
    using nextLemmaUnif_exhausted [OF exhausted] L by simp
  have yes: "nextGoalUnif U B =
             (?u \<noteq> None,
              B\<lparr>unifIts := (unifIts B)[?d := []],
                triedEqUnif := (triedEqUnif B)[?d := True],
                subst := (case ?u of Some s' \<Rightarrow> s' | None \<Rightarrow> subst B)\<rparr>)"
    if "?fallback"
    using that L by (cases ?u) (simp_all add: nextGoalUnif_def lem Let_def)
  have no: "nextGoalUnif U B = (False, ?B1)" if "\<not> ?fallback"
    using that L by (auto simp: nextGoalUnif_def lem Let_def)
  have dt: "?d < length (triedEqUnif B)" and du: "?d < length (unifIts B)"
    using d lens by simp_all
  have tried: "triedEqUnif (snd (nextGoalUnif U B)) ! ?d \<longleftrightarrow>
           triedEqUnif B ! ?d \<or> (isEquality L \<and> isPositive L)"
  proof (cases "?fallback")
    case True
    then show ?thesis using yes dt by simp
  next
    case False
    then show ?thesis using no by auto
  qed
  have again: "nextGoalUnif U (snd (nextGoalUnif U B)) = (False, snd (nextGoalUnif U B))"
  proof (cases "?fallback")
    case True
    let ?B2 = "B\<lparr>unifIts := (unifIts B)[?d := []],
                triedEqUnif := (triedEqUnif B)[?d := True],
                subst := (case ?u of Some s' \<Rightarrow> s' | None \<Rightarrow> subst B)\<rparr>"
    have "nextGoalUnif U ?B2 = (False, ?B2)"
      using dt du by (simp add: nextGoalUnif_def Let_def)
    then show ?thesis using yes [OF True] by simp
  next
    case False
    have "nextGoalUnif U ?B1 = (False, ?B1)"
      using False du L by (auto simp: nextGoalUnif_def Let_def)
    then show ?thesis using no [OF False] by simp
  qed
  have enter: "\<not> triedEqUnif (enterGoal U B) ! ?d"
    using dt by (simp add: enterGoal_def)
  have backtracks: "runStep U B =
             (if ?d = 0 then Inl (False, leaveGoal (snd (nextGoalUnif U B)))
              else Inr ((leaveGoal (snd (nextGoalUnif U B)))\<lparr>depth := ?d - 1\<rparr>))
         \<and> subst (leaveGoal (snd (nextGoalUnif U B))) = btData B ! ?d"
    if fail: "\<not> fst (nextGoalUnif U B)"
  proof (cases "?fallback")
    case True
    with fail yes have u: "?u = None" by auto
    show ?thesis using yes [OF True] u by (simp add: runStep_def leaveGoal_def Let_def)
  next
    case False
    show ?thesis using no [OF False] by (simp add: runStep_def leaveGoal_def Let_def)
  qed
  show ?thesis using yes no tried again enter backtracks by blast
qed

lemma nth_update_cases: "xs[i := x] ! j = (if i = j \<and> i < length xs then x else xs ! j)"
  by (cases "i < length xs") (auto simp: nth_list_update list_update_beyond)

lemma nextGoalUnif_frame:
  "depth (snd (nextGoalUnif U B)) = depth B
   \<and> goalLits (snd (nextGoalUnif U B)) = goalLits B
   \<and> btData (snd (nextGoalUnif U B)) = btData B
   \<and> length (triedEqUnif (snd (nextGoalUnif U B))) = length (triedEqUnif B)
   \<and> length (unifIts (snd (nextGoalUnif U B))) = length (unifIts B)
   \<and> (depth B \<noteq> d \<longrightarrow> triedEqUnif (snd (nextGoalUnif U B)) ! d = triedEqUnif B ! d
                      \<and> unifIts (snd (nextGoalUnif U B)) ! d = unifIts B ! d)
   \<and> (triedEqUnif B ! d \<longrightarrow> triedEqUnif (snd (nextGoalUnif U B)) ! d)
   \<and> (unifIts B ! d = [] \<longrightarrow> unifIts (snd (nextGoalUnif U B)) ! d = [])"
  by (auto simp: nextGoalUnif_def Let_def nth_update_cases split: prod.splits option.splits)

lemma enterGoal_frame:
  "depth (enterGoal U B) = depth B
   \<and> goalLits (enterGoal U B) = goalLits B
   \<and> subst (enterGoal U B) = subst B
   \<and> (depth B \<noteq> d \<longrightarrow> triedEqUnif (enterGoal U B) ! d = triedEqUnif B ! d
                      \<and> unifIts (enterGoal U B) ! d = unifIts B ! d)"
  by (simp add: enterGoal_def)

lemma leaveGoal_frame:
  "depth (leaveGoal B) = depth B \<and> goalLits (leaveGoal B) = goalLits B
   \<and> triedEqUnif (leaveGoal B) = triedEqUnif B \<and> unifIts (leaveGoal B) = unifIts B
   \<and> btData (leaveGoal B) = btData B"
  by (simp add: leaveGoal_def)

lemma runStep_keeps:
  assumes step: "runStep U B1 = Inr B'"
    and out: "\<not> entersGoal U B1 d"
    and inv: "triedEqUnif B1 ! d" "unifIts B1 ! d = []"
  shows "triedEqUnif B' ! d \<and> unifIts B' ! d = []"
proof -
  obtain ok Bn where ng: "nextGoalUnif U B1 = (ok, Bn)" by (cases "nextGoalUnif U B1")
  have dd: "depth Bn = depth B1" "goalLits Bn = goalLits B1"
    and kept: "triedEqUnif Bn ! d" "unifIts Bn ! d = []"
    using nextGoalUnif_frame [of U B1 d] inv ng by simp_all
  show ?thesis
  proof (cases ok)
    case True
    from step ng True have B': "B' = enterGoal U (Bn\<lparr>depth := depth Bn + 1\<rparr>)"
      and ne: "depth Bn + 1 \<noteq> length (goalLits Bn)"
      by (auto simp: runStep_def Let_def split: if_splits)
    from out ng True ne dd have nd: "depth B1 + 1 \<noteq> d" by (auto simp: entersGoal_def)
    show ?thesis using B' nd dd kept by (simp add: enterGoal_def)
  next
    case False
    from step ng False have B': "B' = (leaveGoal Bn)\<lparr>depth := depth (leaveGoal Bn) - 1\<rparr>"
      by (auto simp: runStep_def Let_def split: if_splits)
    show ?thesis using B' kept by (simp add: leaveGoal_def)
  qed
qed

lemma runRounds_keeps:
  "runRounds U d n B1 = Some B2 \<Longrightarrow> triedEqUnif B1 ! d \<Longrightarrow> unifIts B1 ! d = [] \<Longrightarrow>
     triedEqUnif B2 ! d \<and> unifIts B2 ! d = []"
proof (induction n arbitrary: B1)
  case 0
  then show ?case by simp
next
  case (Suc n)
  from Suc.prems(1) obtain B' where step: "runStep U B1 = Inr B'"
    and out: "\<not> entersGoal U B1 d" and rest: "runRounds U d n B' = Some B2"
    by (auto split: sum.splits if_splits)
  from runStep_keeps [OF step out Suc.prems(2,3)] Suc.IH [OF rest] show ?case by simp
qed

lemma nextGoalUnif_spent:
  assumes "triedEqUnif B ! depth B" "unifIts B ! depth B = []"
  shows "nextGoalUnif U B = (False, B)"
proof -
  have "(unifIts B)[depth B := []] = unifIts B"
    using assms(2) by (metis list_update_id)
  then show ?thesis using assms by (simp add: nextGoalUnif_def Let_def)
qed

lemma triesEqUnif_sets:
  assumes t: "triesEqUnif U B"
    and dt: "depth B < length (triedEqUnif B)" and du: "depth B < length (unifIts B)"
  shows "triedEqUnif (snd (nextGoalUnif U B)) ! depth B
       \<and> unifIts (snd (nextGoalUnif U B)) ! depth B = []"
proof -
  obtain r where r: "nextLemmaUnif U (subst B) (goalLits B ! depth B) (unifIts B ! depth B) = (None, r)"
    using t by (cases "nextLemmaUnif U (subst B) (goalLits B ! depth B) (unifIts B ! depth B)")
      (auto simp: triesEqUnif_def Let_def)
  from nextLemmaUnif_None [OF r] have "r = []" by simp
  with r t dt du show ?thesis
    by (auto simp: nextGoalUnif_def triesEqUnif_def Let_def split: option.splits)
qed

lemma no_second_fallback:
  assumes t: "triesEqUnif U B"
    and dt: "depth B < length (triedEqUnif B)" and du: "depth B < length (unifIts B)"
    and step: "runStep U B = Inr B1"
    and rounds: "runRounds U (depth B) n B1 = Some B2"
    and same: "depth B2 = depth B"
  shows "\<not> triesEqUnif U B2 \<and> nextGoalUnif U B2 = (False, B2)"
proof -
  let ?d = "depth B"
  obtain ok Bn where ng: "nextGoalUnif U B = (ok, Bn)" by (cases "nextGoalUnif U B")
  have flag: "triedEqUnif Bn ! ?d" "unifIts Bn ! ?d = []"
    using triesEqUnif_sets [OF t dt du] ng by simp_all
  have fr: "depth Bn = ?d" using nextGoalUnif_frame [of U B ?d] ng by simp
  have B1: "triedEqUnif B1 ! ?d \<and> unifIts B1 ! ?d = []"
  proof (cases ok)
    case True
    from step ng True have "B1 = enterGoal U (Bn\<lparr>depth := depth Bn + 1\<rparr>)"
      by (auto simp: runStep_def Let_def split: if_splits)
    then show ?thesis using flag fr by (simp add: enterGoal_def)
  next
    case False
    from step ng False have "B1 = (leaveGoal Bn)\<lparr>depth := depth (leaveGoal Bn) - 1\<rparr>"
      by (auto simp: runStep_def Let_def split: if_splits)
    then show ?thesis using flag by (simp add: leaveGoal_def)
  qed
  from runRounds_keeps [OF rounds] B1
  have B2: "triedEqUnif B2 ! depth B2" "unifIts B2 ! depth B2 = []"
    using same by simp_all
  show ?thesis using B2 nextGoalUnif_spent [OF B2] by (simp add: triesEqUnif_def Let_def)
qed

text \<open>
  C6: at a goal literal \<open>L\<close> (the goal at the current depth) whose iterator of lemma
  unifications is exhausted without a unifier, \<open>nextGoalUnif\<close> tries to unify the two
  arguments of \<open>L\<close> with each other, both in bank 0, if and only if \<open>L\<close> is an equality,
  \<open>L\<close> is positive and the attempt was not made since the goal was entered; the attempt
  sets \<open>_triedEqUnif\<close> at that depth, which \<open>enterGoal\<close> had cleared, so a further call
  at that depth fails without another attempt. \<open>enterGoal\<close>, \<open>nextGoalUnif\<close> and
  \<open>leaveGoal\<close> at another depth leave \<open>_triedEqUnif\<close> and \<open>_unifIts\<close> at that depth as
  they are: after the attempt, in whatever state the loop of \<open>run\<close> comes back to that
  depth without having entered the goal again, \<open>nextGoalUnif\<close> fails at once, without
  another attempt. When \<open>nextGoalUnif\<close> fails, \<open>run\<close> leaves the goal, which restores
  the substitution recorded on entry, and steps back one depth, or returns false at
  depth 0.
\<close>

theorem equality_fallback_once:
  assumes d: "depth B < length (goalLits B)"
    and lens: "length (unifIts B) = length (goalLits B)"
      "length (triedEqUnif B) = length (goalLits B)"
    and L: "L = goalLits B ! depth B"
    and exhausted: "list_all (\<lambda>q. unifyArgs U (subst B) L 0 q 1 = None) (unifIts B ! depth B)"
  shows "(\<not> triedEqUnif B ! depth B \<and> isEquality L \<and> isPositive L \<longrightarrow>
           nextGoalUnif U B =
             (unify U (subst B) (args L ! 0) 0 (args L ! 1) 0 \<noteq> None,
              B\<lparr>unifIts := (unifIts B)[depth B := []],
                triedEqUnif := (triedEqUnif B)[depth B := True],
                subst := (case unify U (subst B) (args L ! 0) 0 (args L ! 1) 0 of
                            Some s' \<Rightarrow> s' | None \<Rightarrow> subst B)\<rparr>))
    \<and> (\<not> (\<not> triedEqUnif B ! depth B \<and> isEquality L \<and> isPositive L) \<longrightarrow>
           nextGoalUnif U B = (False, B\<lparr>unifIts := (unifIts B)[depth B := []]\<rparr>))
    \<and> (triedEqUnif (snd (nextGoalUnif U B)) ! depth B \<longleftrightarrow>
           triedEqUnif B ! depth B \<or> (isEquality L \<and> isPositive L))
    \<and> nextGoalUnif U (snd (nextGoalUnif U B)) = (False, snd (nextGoalUnif U B))
    \<and> \<not> triedEqUnif (enterGoal U B) ! depth B
    \<and> (\<not> fst (nextGoalUnif U B) \<longrightarrow>
           runStep U B =
             (if depth B = 0 then Inl (False, leaveGoal (snd (nextGoalUnif U B)))
              else Inr ((leaveGoal (snd (nextGoalUnif U B)))\<lparr>depth := depth B - 1\<rparr>))
         \<and> subst (leaveGoal (snd (nextGoalUnif U B))) = btData B ! depth B)
    \<and> (triesEqUnif U B \<longleftrightarrow>
           \<not> triedEqUnif B ! depth B \<and> isEquality L \<and> isPositive L)
    \<and> (\<forall>B' e. depth B' \<noteq> e \<longrightarrow>
           triedEqUnif (enterGoal U B') ! e = triedEqUnif B' ! e
         \<and> unifIts (enterGoal U B') ! e = unifIts B' ! e
         \<and> triedEqUnif (snd (nextGoalUnif U B')) ! e = triedEqUnif B' ! e
         \<and> unifIts (snd (nextGoalUnif U B')) ! e = unifIts B' ! e
         \<and> triedEqUnif (leaveGoal B') ! e = triedEqUnif B' ! e
         \<and> unifIts (leaveGoal B') ! e = unifIts B' ! e)
    \<and> (\<forall>n B1 B2. triesEqUnif U B \<and> runStep U B = Inr B1
                   \<and> runRounds U (depth B) n B1 = Some B2 \<and> depth B2 = depth B \<longrightarrow>
           \<not> triesEqUnif U B2 \<and> nextGoalUnif U B2 = (False, B2))"
proof -
  note step = nextGoalUnif_exhausted_goal [OF d lens L exhausted]
  have dt: "depth B < length (triedEqUnif B)" and du: "depth B < length (unifIts B)"
    using d lens by simp_all
  have tries: "triesEqUnif U B \<longleftrightarrow>
           \<not> triedEqUnif B ! depth B \<and> isEquality L \<and> isPositive L"
    using nextLemmaUnif_exhausted [OF exhausted] L by (simp add: triesEqUnif_def Let_def)
  have frame: "triedEqUnif (enterGoal U B') ! e = triedEqUnif B' ! e
         \<and> unifIts (enterGoal U B') ! e = unifIts B' ! e
         \<and> triedEqUnif (snd (nextGoalUnif U B')) ! e = triedEqUnif B' ! e
         \<and> unifIts (snd (nextGoalUnif U B')) ! e = unifIts B' ! e
         \<and> triedEqUnif (leaveGoal B') ! e = triedEqUnif B' ! e
         \<and> unifIts (leaveGoal B') ! e = unifIts B' ! e"
    if "depth B' \<noteq> e" for B' e
    using that enterGoal_frame [of U B' e] nextGoalUnif_frame [of U B' e] leaveGoal_frame [of B']
    by simp
  have once: "\<not> triesEqUnif U B2 \<and> nextGoalUnif U B2 = (False, B2)"
    if "triesEqUnif U B \<and> runStep U B = Inr B1
          \<and> runRounds U (depth B) n B1 = Some B2 \<and> depth B2 = depth B" for n B1 B2
    using that no_second_fallback [OF _ dt du, of U B1 n B2] by simp
  note a1 = step [THEN conjunct1]
  note a2 = step [THEN conjunct2, THEN conjunct1]
  note a3 = step [THEN conjunct2, THEN conjunct2, THEN conjunct1]
  note a4 = step [THEN conjunct2, THEN conjunct2, THEN conjunct2, THEN conjunct1]
  note a5 = step [THEN conjunct2, THEN conjunct2, THEN conjunct2, THEN conjunct2, THEN conjunct1]
  note a6 = step [THEN conjunct2, THEN conjunct2, THEN conjunct2, THEN conjunct2, THEN conjunct2]
  show ?thesis
    apply (intro conjI)
            apply (rule a1)
           apply (rule a2)
          apply (rule a3)
         apply (rule a4)
        apply (rule a5)
       apply (rule a6)
      apply (rule tries)
     apply (intro allI impI, rule frame, assumption)
    apply (intro allI impI, rule once, assumption)
    done
qed


theorem equality_fallback_once_witness:
  "(let L = \<lparr>functor' = 0, polarity = True, args = [Fn 1 [], Fn 1 []]\<rparr>;
        G = \<lparr>functor' = 9, polarity = True, args = [Fn 1 []]\<rparr>;
        B = \<lparr>goalLits = [L, G], subst = [], btData = [[], []], unifIts = [[], []],
             triedEqUnif = [False, False], depth = 0\<rparr>;
        B1 = B\<lparr>triedEqUnif := [True, False], depth := 1\<rparr>;
        B2 = B\<lparr>triedEqUnif := [True, False]\<rparr>
    in depth B < length (goalLits B)
     \<and> length (unifIts B) = length (goalLits B)
     \<and> length (triedEqUnif B) = length (goalLits B)
     \<and> L = goalLits B ! depth B
     \<and> list_all (\<lambda>q. unifyArgs syntacticUnification (subst B) L 0 q 1 = None)
          (unifIts B ! depth B)
     \<and> \<not> triedEqUnif B ! depth B \<and> isEquality L \<and> isPositive L
     \<and> triesEqUnif syntacticUnification B
     \<and> runStep syntacticUnification B = Inr B1
     \<and> runRounds syntacticUnification (depth B) 1 B1 = Some B2
     \<and> depth B2 = depth B
     \<and> \<not> triesEqUnif syntacticUnification B2
     \<and> nextGoalUnif syntacticUnification B2 = (False, B2)
     \<and> depth B1 \<noteq> 0
     \<and> triedEqUnif (enterGoal syntacticUnification B1) ! 0
     \<and> triedEqUnif (snd (nextGoalUnif syntacticUnification B1)) ! 0
     \<and> triedEqUnif (leaveGoal B1) ! 0
     \<and> run syntacticUnification B = Some (False, B2))"
proof -
  let ?U = "syntacticUnification"
  let ?L = "\<lparr>functor' = 0, polarity = True, args = [Fn 1 [], Fn 1 []]\<rparr>"
  let ?G = "\<lparr>functor' = 9, polarity = True, args = [Fn 1 []]\<rparr>"
  let ?B = "\<lparr>goalLits = [?L, ?G], subst = [] :: (nat \<times> TermList) list, btData = [[], []],
             unifIts = [[], []], triedEqUnif = [False, False], depth = 0\<rparr>"
  let ?B1 = "?B\<lparr>triedEqUnif := [True, False], depth := 1\<rparr>"
  let ?B2 = "?B\<lparr>triedEqUnif := [True, False]\<rparr>"
  have hyps: "depth ?B < length (goalLits ?B)"
    "length (unifIts ?B) = length (goalLits ?B)"
    "length (triedEqUnif ?B) = length (goalLits ?B)"
    "?L = goalLits ?B ! depth ?B"
    "list_all (\<lambda>q. unifyArgs ?U (subst ?B) ?L 0 q 1 = None) (unifIts ?B ! depth ?B)"
    by simp_all
  have cond: "\<not> triedEqUnif ?B ! depth ?B" "isEquality ?L" "isPositive ?L"
    by (simp_all add: isEquality_def isPositive_def)
  note inst = equality_fallback_once [OF hyps]
  have tries: "triesEqUnif ?U ?B"
    using inst [THEN conjunct2, THEN conjunct2, THEN conjunct2, THEN conjunct2,
      THEN conjunct2, THEN conjunct2, THEN conjunct1] cond by blast
  have first: "nextGoalUnif ?U ?B = (True, ?B\<lparr>triedEqUnif := [True, False]\<rparr>)"
    using inst [THEN conjunct1] cond by (simp add: syntacticUnification_def)
  have step1: "runStep ?U ?B = Inr ?B1"
    unfolding runStep_def first by (simp add: enterGoal_def Let_def syntacticUnification_def)
  have second: "nextGoalUnif ?U ?B1 = (False, ?B1)"
    by (simp add: nextGoalUnif_def Let_def isEquality_def)
  have step2: "runStep ?U ?B1 = Inr ?B2"
    unfolding runStep_def second by (simp add: leaveGoal_def Let_def)
  have notenter: "\<not> entersGoal ?U ?B1 0"
    by (simp add: entersGoal_def)
  have rounds: "runRounds ?U (depth ?B) 1 ?B1 = Some ?B2"
    using step2 notenter by simp
  have same: "depth ?B2 = depth ?B" by simp
  note frame = inst [THEN conjunct2, THEN conjunct2, THEN conjunct2, THEN conjunct2,
      THEN conjunct2, THEN conjunct2, THEN conjunct2, THEN conjunct1, rule_format, of ?B1 0]
  have other: "depth ?B1 \<noteq> 0" by simp
  have kept: "triedEqUnif (enterGoal ?U ?B1) ! 0"
    "triedEqUnif (snd (nextGoalUnif ?U ?B1)) ! 0"
    "triedEqUnif (leaveGoal ?B1) ! 0"
    using frame [OF other] by simp_all
  note once = inst [THEN conjunct2, THEN conjunct2, THEN conjunct2, THEN conjunct2,
      THEN conjunct2, THEN conjunct2, THEN conjunct2, THEN conjunct2, rule_format,
      of ?B1 1 ?B2]
  have spent: "\<not> triesEqUnif ?U ?B2" "nextGoalUnif ?U ?B2 = (False, ?B2)"
    using once tries step1 rounds same by blast+
  have step3: "runStep ?U ?B2 = Inl (False, ?B2)"
    unfolding runStep_def spent(2) by (simp add: leaveGoal_def Let_def)
  have enter: "enterGoal ?U (?B\<lparr>depth := 0\<rparr>) = ?B"
    by (simp add: enterGoal_def syntacticUnification_def)
  have result: "run ?U ?B = Some (False, ?B2)"
    unfolding run_def enter
    by (subst runLoop.simps, simp only: step1 sum.case,
        subst runLoop.simps, simp only: step2 sum.case,
        subst runLoop.simps, simp only: step3 sum.case)
  show ?thesis
    unfolding Let_def
    using hyps cond tries step1 rounds same spent other kept result by blast
qed


end
